theory Spec2Isabelle
  imports Main "HOL-Library.AList"
begin

section \<open>Values, errors and call outcomes\<close>

text \<open>
  The repository (\<open>Repository\<close>, \<open>createRepository\<close>) is modelled from its source file.
  The classes it imports (\<open>Lookup\<close>, \<open>DataCompartment\<close>, \<open>ConfiguredDataSource\<close>,
  \<open>DataStoreToken\<close>) are not among the files verified here; they are modelled from the
  specification (Cell, KeyedCache) and each such definition says so.

  JavaScript objects are mutable and shared by reference, so Lookups and compartments live in
  an explicit store and are named by their address (their index in the store). A JavaScript
  reference always refers to an object; accordingly the store operations read an address
  without a check, and the invariants \<open>heapClosed\<close> and \<open>wellFormed\<close> below say that every
  address held by the repository or by a Lookup is in the store. The registry is given by
  the list of its entries, in \<open>Object.entries\<close> order. The two objects that the repository
  uses as dictionaries of Lookups are plain objects, with a prototype behind their own
  properties (\<open>hash\<close>, \<open>hashGet\<close>, \<open>hashSet\<close> below).

  Asynchrony is modelled by its result. A promise is described by how it settles, a load in
  flight is a flag of the Cell and completes in a step of its own (\<open>settleLoad\<close>), and the
  body of the one \<open>async\<close> method, \<open>modify\<close>, is run to its end without other calls
  interleaved at its \<open>await\<close>s.
\<close>

text \<open>An entity id: \<open>Key extends string | number\<close>.\<close>

datatype key = StrKey string | NumKey int

text \<open>
  The errors. \<open>UnknownCategory k\<close> is the \<open>Error\<close> thrown by \<open>findLookup\<close> with the message
  \<open>Could not find compartment "k".\<close>; \<open>TypeError\<close> is what the language raises when a
  value that is not a function is called, with its message; the other two carry the rejection
  reason of a resolver and of a modifier.
\<close>

datatype error =
    UnknownCategory string
  | TypeError string
  | LoadFailure string
  | ModifierFailure string

text \<open>
  A call either throws at call time or returns. An \<open>async\<close> function always returns a
  promise; the promise is described by how it settles.
\<close>

datatype 'a outcome = Throws error | Returns 'a

datatype 'a promise = Rejected error | Fulfilled 'a

text \<open>
  Modelled from the spec: \<open>DataStoreToken\<close> and its method \<open>compartment(key)\<close>, which
  derives the token of one category's compartments from the token of the repository.
\<close>

datatype dataStoreToken = DataStoreToken string | CompartmentToken dataStoreToken string

definition compartment :: "dataStoreToken \<Rightarrow> string \<Rightarrow> dataStoreToken" where
  "compartment t k = CompartmentToken t k"

section \<open>Configuration\<close>

text \<open>
  \<open>RepositoryCompartmentOptions\<close>: the resolver of a category and its optional retention.
  A resolver \<open>(key) => Promise<Entity>\<close> is a function from the key to the settlement of its
  promise: \<open>Inl reason\<close> when it rejects. The type of retention options is a parameter.
\<close>

record ('v, 'r) repositoryCompartmentOptions =
  retention :: "'r option"
  resolver :: "key \<Rightarrow> string + 'v"

text \<open>
  \<open>new ConfiguredDataSource(async () => entityOptions.resolver.resolve(id))\<close>: the closure
  with the two variables it captures, the resolver and the id.
\<close>

datatype 'v dataSource = ConfiguredDataSource "key \<Rightarrow> string + 'v" key

text \<open>
  The loading strategy. \<open>createRepository\<close> only ever uses \<open>'auto'\<close>; \<open>Manual\<close> stands for
  any strategy that does not load on creation.
\<close>

datatype loadStrategy = Auto | Manual

text \<open>\<open>DataCompartmentOptions\<close>, with the four fields \<open>createRepository\<close> fills in.\<close>

record ('v, 'r) dataCompartmentOptions =
  strategy :: loadStrategy
  retentionOption :: "'r option"
  defaultValue :: "'v option"
  source :: "'v dataSource"

section \<open>The store: compartments and lookups\<close>

text \<open>
  Modelled from the spec: the Cell (\<open>DataCompartment\<close>). \<open>current\<close> is the value, absent
  until the first load completes; \<open>stream\<close> is the sequence of values emitted so far to
  subscribers; \<open>loading\<close> says that a load is in flight.
\<close>

record ('v, 'r) cell =
  compartmentToken :: dataStoreToken
  options :: "('v, 'r) dataCompartmentOptions"
  current :: "'v option"
  stream :: "'v list"
  loading :: bool

text \<open>
  Modelled from the spec: the KeyedCache (\<open>Lookup\<close>): the factory given to its constructor
  (it yields the arguments of \<open>new DataCompartment\<close>) and the mapping from key to Cell.
\<close>

record ('v, 'r) lookup =
  factory :: "key \<Rightarrow> dataStoreToken \<times> ('v, 'r) dataCompartmentOptions"
  cells :: "(key \<times> nat) list"

text \<open>
  The store. Two logs record what is otherwise not visible in a state: \<open>resolverCalls\<close>
  has every invocation of a resolver (the token of the compartment that loads and the key the
  resolver is applied to), \<open>pushes\<close> has every call of \<open>next\<close> (the Cell and the value).
\<close>

record ('v, 'r) heap =
  lookupStore :: "('v, 'r) lookup list"
  cellStore :: "('v, 'r) cell list"
  resolverCalls :: "(dataStoreToken \<times> key) list"
  pushes :: "(nat \<times> 'v) list"

subsection \<open>Plain objects as dictionaries\<close>

text \<open>
  A plain object whose properties are Lookups. \<open>own\<close> has its own enumerable properties, in
  \<open>Object.entries\<close> order. \<open>proto\<close> is its prototype: \<open>None\<close> for \<open>Object.prototype\<close>, which
  the object literal \<open>{}\<close> has, and \<open>Some l\<close> once an assignment to \<open>__proto__\<close> has put the
  Lookup \<open>l\<close> in its place.
\<close>

record hash =
  own :: "(string \<times> nat) list"
  proto :: "nat option"

definition emptyHash :: hash where
  "emptyHash = \<lparr>own = [], proto = None\<rparr>"

text \<open>The function-valued properties that every object inherits from \<open>Object.prototype\<close>.\<close>

definition objectPrototypeNames :: "string list" where
  "objectPrototypeNames =
     [''constructor'', ''hasOwnProperty'', ''isPrototypeOf'', ''propertyIsEnumerable'',
      ''toLocaleString'', ''toString'', ''valueOf'', ''__defineGetter__'', ''__defineSetter__'',
      ''__lookupGetter__'', ''__lookupSetter__'']"

text \<open>
  The names a plain object answers to without having them as own properties: the accessor
  \<open>__proto__\<close> and the functions of \<open>Object.prototype\<close>.
\<close>

definition inherited :: "string \<Rightarrow> bool" where
  "inherited key = (key = ''__proto__'' \<or> key \<in> set objectPrototypeNames)"

text \<open>
  Modelled from the spec: the methods of a Lookup, which are the three operations of the
  KeyedCache. An object whose prototype is a Lookup inherits them. The fields in which a
  Lookup keeps its factory and its mapping are not known by name and are left out.
\<close>

definition lookupMethodNames :: "string list" where
  "lookupMethodNames = [''find'', ''clear'', ''clearAll'']"

text \<open>
  What reading a property yields: \<open>undefined\<close>, a Lookup, or an inherited value under the
  given name (a function, or the prototype itself for \<open>__proto__\<close>). An inherited value is
  truthy and has no method \<open>find\<close>, \<open>clear\<close> or \<open>clearAll\<close>.
\<close>

datatype jsValue = Undefined | LookupObject nat | Inherited string

text \<open>
  \<open>obj[key]\<close>: an own property first; then the accessor \<open>__proto__\<close>, which yields the
  prototype; then the prototype chain, which ends in \<open>Object.prototype\<close>.
\<close>

definition hashGet :: "string \<Rightarrow> hash \<Rightarrow> jsValue" where
  "hashGet key obj =
     (case map_of (own obj) key of
        Some l \<Rightarrow> LookupObject l
      | None \<Rightarrow>
          if key = ''__proto__''
          then (case proto obj of None \<Rightarrow> Inherited key | Some l \<Rightarrow> LookupObject l)
          else if key \<in> set objectPrototypeNames then Inherited key
          else (case proto obj of
                  None \<Rightarrow> Undefined
                | Some l \<Rightarrow> if key \<in> set lookupMethodNames then Inherited key else Undefined))"

text \<open>
  \<open>obj[key] = l\<close> for a Lookup \<open>l\<close>: the key \<open>__proto__\<close>, unless it is an own property,
  reaches the setter of \<open>Object.prototype\<close>, which replaces the prototype and adds no
  property; any other key becomes, or stays, an own property. A new property is added at the
  end, which is its place in \<open>Object.entries\<close> order when the keys are assigned in the order
  of the entries of another object, as both loops of the source do.
\<close>

definition hashSet :: "string \<Rightarrow> nat \<Rightarrow> hash \<Rightarrow> hash" where
  "hashSet key l obj =
     (if key = ''__proto__'' \<and> map_of (own obj) key = None
      then obj\<lparr>proto := Some l\<rparr>
      else obj\<lparr>own := AList.update key l (own obj)\<rparr>)"

text \<open>
  The state of the program: the store and the fields of the one \<open>Repository\<close> object.
  \<open>lookups\<close> is the constructor's parameter property, \<open>compartmentLookups\<close> the private
  hash the constructor fills; both hold addresses of Lookups.
\<close>

record ('v, 'r) state = "('v, 'r) heap" +
  token :: dataStoreToken
  managedTokens :: "dataStoreToken list"
  lookups :: hash
  compartmentLookups :: hash

subsection \<open>Cell operations\<close>

text \<open>
  Modelled from the spec: invoking the source of a Cell. At most one load is in flight per
  Cell, so nothing happens while one is outstanding; otherwise the resolver is invoked.
\<close>

definition startLoad :: "nat \<Rightarrow> ('v, 'r, 'z) heap_scheme \<Rightarrow> ('v, 'r, 'z) heap_scheme" where
  "startLoad c h =
     (let cell = cellStore h ! c in
      if loading cell then h
      else (case source (options cell) of
              ConfiguredDataSource r k \<Rightarrow>
                h\<lparr>cellStore := (cellStore h)[c := cell\<lparr>loading := True\<rparr>],
                  resolverCalls := resolverCalls h @ [(compartmentToken cell, k)]\<rparr>))"

text \<open>
  Modelled from the spec: the load in flight completes. On success the value is replaced and
  emitted; on failure the Cell keeps its previous value.
\<close>

definition settleLoad :: "nat \<Rightarrow> ('v, 'r, 'z) heap_scheme \<Rightarrow> ('v, 'r, 'z) heap_scheme" where
  "settleLoad c h =
     (let cell = cellStore h ! c in
      if \<not> loading cell then h
      else (case source (options cell) of
              ConfiguredDataSource r k \<Rightarrow>
                (case r k of
                   Inl reason \<Rightarrow> h\<lparr>cellStore := (cellStore h)[c := cell\<lparr>loading := False\<rparr>]\<rparr>
                 | Inr v \<Rightarrow>
                     h\<lparr>cellStore := (cellStore h)
                          [c := cell\<lparr>loading := False, current := Some v,
                                     stream := stream cell @ [v]\<rparr>]\<rparr>)))"

text \<open>
  Modelled from the spec: \<open>new DataCompartment(token, options)\<close>. The Cell is allocated at
  the next free address; with the strategy \<open>auto\<close> its source is invoked at once.
\<close>

definition DataCompartment ::
  "dataStoreToken \<times> ('v, 'r) dataCompartmentOptions \<Rightarrow> ('v, 'r, 'z) heap_scheme
     \<Rightarrow> nat \<times> ('v, 'r, 'z) heap_scheme" where
  "DataCompartment args h =
     (let c = length (cellStore h);
          cell = \<lparr>compartmentToken = fst args, options = snd args,
                  current = defaultValue (snd args), stream = [], loading = False\<rparr>;
          h1 = h\<lparr>cellStore := cellStore h @ [cell]\<rparr>
      in (c, if strategy (snd args) = Auto then startLoad c h1 else h1))"

text \<open>
  Modelled from the spec: \<open>read()\<close>, which is \<open>await firstValueFrom(compartment.value$)\<close>
  in the source. A present value is returned as it is. Otherwise the caller waits for the load
  in flight (or a newly triggered one) and gets the first emitted value, or the failure of
  that load. The wait is run to its end: nothing else is interleaved with it.
\<close>

definition firstValueFrom ::
  "nat \<Rightarrow> ('v, 'r, 'z) heap_scheme \<Rightarrow> (error + 'v) \<times> ('v, 'r, 'z) heap_scheme" where
  "firstValueFrom c h =
     (case current (cellStore h ! c) of
        Some v \<Rightarrow> (Inr v, h)
      | None \<Rightarrow>
          (let h1 = settleLoad c (startLoad c h) in
           case source (options (cellStore h ! c)) of
             ConfiguredDataSource r k \<Rightarrow>
               (case r k of
                  Inl reason \<Rightarrow> (Inl (LoadFailure reason), h1)
                | Inr v \<Rightarrow> (Inr v, h1))))"

text \<open>
  Modelled from the spec: \<open>push(value)\<close>, the method \<open>next\<close> of the source. It replaces the
  current value and emits it; the source is not invoked.
\<close>

definition DataCompartment_next ::
  "nat \<Rightarrow> 'v \<Rightarrow> ('v, 'r, 'z) heap_scheme \<Rightarrow> ('v, 'r, 'z) heap_scheme" where
  "DataCompartment_next c v h =
     (let cell = cellStore h ! c in
      h\<lparr>cellStore := (cellStore h)[c := cell\<lparr>current := Some v, stream := stream cell @ [v]\<rparr>],
        pushes := pushes h @ [(c, v)]\<rparr>)"

subsection \<open>Lookup operations\<close>

text \<open>
  Modelled from the spec: \<open>find(key)\<close> returns the Cell of the key and creates it with the
  factory when it is absent. The call is synchronous: it returns with the load in flight.
\<close>

definition Lookup_find ::
  "nat \<Rightarrow> key \<Rightarrow> ('v, 'r, 'z) heap_scheme \<Rightarrow> nat \<times> ('v, 'r, 'z) heap_scheme" where
  "Lookup_find a k h =
     (let l = lookupStore h ! a in
      case map_of (cells l) k of
        Some c \<Rightarrow> (c, h)
      | None \<Rightarrow>
          (let (c, h1) = DataCompartment (factory l k) h in
           (c, h1\<lparr>lookupStore := (lookupStore h1)[a := l\<lparr>cells := cells l @ [(k, c)]\<rparr>]\<rparr>)))"

text \<open>Modelled from the spec: \<open>clear(key)\<close> removes the mapping of the key, not the Cell.\<close>

definition Lookup_clear :: "nat \<Rightarrow> key \<Rightarrow> ('v, 'r, 'z) heap_scheme \<Rightarrow> ('v, 'r, 'z) heap_scheme" where
  "Lookup_clear a k h =
     (let l = lookupStore h ! a in
      h\<lparr>lookupStore := (lookupStore h)[a := l\<lparr>cells := AList.delete k (cells l)\<rparr>]\<rparr>)"

text \<open>Modelled from the spec: \<open>clearAll()\<close> removes every mapping of the cache.\<close>

definition Lookup_clearAll :: "nat \<Rightarrow> ('v, 'r, 'z) heap_scheme \<Rightarrow> ('v, 'r, 'z) heap_scheme" where
  "Lookup_clearAll a h =
     (let l = lookupStore h ! a in
      h\<lparr>lookupStore := (lookupStore h)[a := l\<lparr>cells := []\<rparr>]\<rparr>)"

section \<open>The Repository\<close>

text \<open>
  The constructor: it keeps its three parameters and copies the entries of \<open>lookups\<close> into
  the fresh object \<open>compartmentLookups = {}\<close>, one assignment per entry.
\<close>

definition Repository ::
  "dataStoreToken \<Rightarrow> dataStoreToken list \<Rightarrow> hash \<Rightarrow> ('v, 'r) heap \<Rightarrow> ('v, 'r) state" where
  "Repository tok mts lks h =
     \<lparr>lookupStore = lookupStore h, cellStore = cellStore h, resolverCalls = resolverCalls h,
      pushes = pushes h, token = tok, managedTokens = mts, lookups = lks,
      compartmentLookups = fold (\<lambda>(key, val) cl. hashSet key val cl) (own lks) emptyHash\<rparr>"

text \<open>
  \<open>findLookup\<close>: it reads the property \<open>key\<close> of \<open>compartmentLookups\<close> and throws when
  the value is falsy, which of the values a read can yield only \<open>undefined\<close> is. Whatever
  else the read yields is returned as the lookup.
\<close>

definition findLookup :: "string \<Rightarrow> ('v, 'r) state \<Rightarrow> jsValue outcome" where
  "findLookup key s =
     (let lookup = hashGet key (compartmentLookups s) in
      if lookup = Undefined then Throws (UnknownCategory key) else Returns lookup)"

text \<open>
  The three synchronous methods call a method of what \<open>findLookup\<close> returned. When that is
  not a Lookup the method is \<open>undefined\<close> and the call raises a \<open>TypeError\<close>.
\<close>

definition clear :: "string \<Rightarrow> key \<Rightarrow> ('v, 'r) state \<Rightarrow> unit outcome \<times> ('v, 'r) state" where
  "clear key ident s =
     (case findLookup key s of
        Throws e \<Rightarrow> (Throws e, s)
      | Returns lookup \<Rightarrow>
          (case lookup of
             LookupObject l \<Rightarrow> (Returns (), Lookup_clear l ident s)
           | _ \<Rightarrow> (Throws (TypeError ''lookup.clear is not a function''), s)))"

definition clearAll :: "string \<Rightarrow> ('v, 'r) state \<Rightarrow> unit outcome \<times> ('v, 'r) state" where
  "clearAll key s =
     (case findLookup key s of
        Throws e \<Rightarrow> (Throws e, s)
      | Returns lookup \<Rightarrow>
          (case lookup of
             LookupObject l \<Rightarrow> (Returns (), Lookup_clearAll l s)
           | _ \<Rightarrow> (Throws (TypeError ''lookup.clearAll is not a function''), s)))"

definition get :: "string \<Rightarrow> key \<Rightarrow> ('v, 'r) state \<Rightarrow> nat outcome \<times> ('v, 'r) state" where
  "get key ident s =
     (case findLookup key s of
        Throws e \<Rightarrow> (Throws e, s)
      | Returns lookup \<Rightarrow>
          (case lookup of
             LookupObject l \<Rightarrow> (case Lookup_find l ident s of (c, s1) \<Rightarrow> (Returns c, s1))
           | _ \<Rightarrow> (Throws (TypeError ''lookup.find is not a function''), s)))"

text \<open>
  \<open>modify\<close> is declared \<open>async\<close>: the call itself never throws. It returns a promise, and
  whatever its body throws, or an awaited promise rejects with, rejects that promise. The
  body is run to its end, one statement after the other.
\<close>

definition modify ::
  "string \<Rightarrow> key \<Rightarrow> ('v \<Rightarrow> string + 'v) \<Rightarrow> ('v, 'r) state
     \<Rightarrow> unit promise outcome \<times> ('v, 'r) state" where
  "modify key ident modifier s =
     (case get key ident s of
        (Throws e, s1) \<Rightarrow> (Returns (Rejected e), s1)
      | (Returns stronglyTypedCompartment, s1) \<Rightarrow>
          (case firstValueFrom stronglyTypedCompartment s1 of
             (Inl e, s2) \<Rightarrow> (Returns (Rejected e), s2)
           | (Inr currentValue, s2) \<Rightarrow>
               (case modifier currentValue of
                  Inl reason \<Rightarrow> (Returns (Rejected (ModifierFailure reason)), s2)
                | Inr newValue \<Rightarrow>
                    (Returns (Fulfilled ()),
                     DataCompartment_next stronglyTypedCompartment newValue s2))))"

text \<open>\<open>reset\<close>: \<open>clearAll\<close> on the value of every entry of \<open>Object.entries(this.lookups)\<close>.\<close>

definition clearEach :: "(string \<times> nat) list \<Rightarrow> ('v, 'r) state \<Rightarrow> ('v, 'r) state" where
  "clearEach entries s = fold (\<lambda>(key, val) s1. Lookup_clearAll val s1) entries s"

definition reset :: "('v, 'r) state \<Rightarrow> ('v, 'r) state" where
  "reset s = clearEach (own (lookups s)) s"

section \<open>createRepository\<close>

text \<open>
  The factory handed to \<open>new Lookup\<close> for the registry entry \<open>(key, value)\<close>: the arguments
  of \<open>new DataCompartment\<close> for the requested id.
\<close>

definition compartmentFactory ::
  "dataStoreToken \<Rightarrow> string \<Rightarrow> ('v, 'r) repositoryCompartmentOptions \<Rightarrow> key
     \<Rightarrow> dataStoreToken \<times> ('v, 'r) dataCompartmentOptions" where
  "compartmentFactory tok key val ident =
     (compartment tok key,
      \<lparr>strategy = Auto, retentionOption = retention val, defaultValue = None,
       source = ConfiguredDataSource (resolver val) ident\<rparr>)"

text \<open>Modelled from the spec: \<open>new Lookup(factory)\<close> allocates an empty KeyedCache.\<close>

definition Lookup ::
  "(key \<Rightarrow> dataStoreToken \<times> ('v, 'r) dataCompartmentOptions) \<Rightarrow> ('v, 'r, 'z) heap_scheme
     \<Rightarrow> nat \<times> ('v, 'r, 'z) heap_scheme" where
  "Lookup f h =
     (length (lookupStore h), h\<lparr>lookupStore := lookupStore h @ [\<lparr>factory = f, cells = []\<rparr>]\<rparr>)"

text \<open>
  The loop of \<open>createRepository\<close> that fills the object \<open>lookups\<close>: one new Lookup per
  entry, assigned to the property \<open>key\<close>.
\<close>

definition createLookups ::
  "dataStoreToken \<Rightarrow> (string \<times> ('v, 'r) repositoryCompartmentOptions) list
     \<Rightarrow> hash \<times> ('v, 'r) heap \<Rightarrow> hash \<times> ('v, 'r) heap" where
  "createLookups tok entries acc =
     fold (\<lambda>(key, val) (lks, h).
             (case Lookup (compartmentFactory tok key val) h of
                (l, h1) \<Rightarrow> (hashSet key l lks, h1)))
          entries acc"

text \<open>
  \<open>createRepository(token, registry)\<close>; the registry is given by its entries, in
  \<open>Object.entries\<close> order.
\<close>

definition createRepository ::
  "dataStoreToken \<Rightarrow> (string \<times> ('v, 'r) repositoryCompartmentOptions) list \<Rightarrow> ('v, 'r) heap
     \<Rightarrow> ('v, 'r) state" where
  "createRepository tok registry h =
     (let entries = registry;
          managedTokens = map (\<lambda>(key, val). compartment tok key) entries;
          (lookups, h1) = createLookups tok entries (emptyHash, h)
      in Repository tok managedTokens lookups h1)"

text \<open>The store before anything is allocated.\<close>

definition emptyHeap :: "('v, 'r) heap" where
  "emptyHeap = \<lparr>lookupStore = [], cellStore = [], resolverCalls = [], pushes = []\<rparr>"

section \<open>Observations, runs and well-formed states\<close>

text \<open>The key-to-Cell mapping of a registered category.\<close>

definition cellsOf :: "string \<Rightarrow> ('v, 'r) state \<Rightarrow> (key \<times> nat) list option" where
  "cellsOf key s =
     (case map_of (own (compartmentLookups s)) key of
        None \<Rightarrow> None
      | Some l \<Rightarrow> Some (cells (lookupStore s ! l)))"

text \<open>The compartment that a category currently holds for an id, if any.\<close>

definition compartmentOf :: "string \<Rightarrow> key \<Rightarrow> ('v, 'r) state \<Rightarrow> nat option" where
  "compartmentOf key ident s =
     (case cellsOf key s of None \<Rightarrow> None | Some kcs \<Rightarrow> map_of kcs ident)"

text \<open>The calls of the repository, and a run of calls one after the other.\<close>

datatype 'v operation =
    Get string key
  | Clear string key
  | ClearAll string
  | Modify string key "'v \<Rightarrow> string + 'v"
  | Reset

fun exec :: "'v operation \<Rightarrow> ('v, 'r) state \<Rightarrow> ('v, 'r) state" where
  "exec (Get key ident) s = snd (get key ident s)"
| "exec (Clear key ident) s = snd (clear key ident s)"
| "exec (ClearAll key) s = snd (clearAll key s)"
| "exec (Modify key ident modifier) s = snd (modify key ident modifier s)"
| "exec Reset s = reset s"

definition run :: "'v operation list \<Rightarrow> ('v, 'r) state \<Rightarrow> ('v, 'r) state" where
  "run ops s = fold exec ops s"

text \<open>
  Callers racing for the same category and id. Calls of \<open>get\<close> are synchronous, so the
  race is a sequence of calls, one per caller, between which loads in flight may complete.
\<close>

datatype raceEvent = Caller | LoadSettles nat

fun race ::
  "string \<Rightarrow> key \<Rightarrow> raceEvent list \<Rightarrow> ('v, 'r) state \<Rightarrow> nat outcome list \<times> ('v, 'r) state" where
  "race key ident [] s = ([], s)"
| "race key ident (Caller # es) s =
     (case get key ident s of
        (r, s1) \<Rightarrow> (case race key ident es s1 of (rs, s2) \<Rightarrow> (r # rs, s2)))"
| "race key ident (LoadSettles c # es) s = race key ident es (settleLoad c s)"

definition callers :: "raceEvent list \<Rightarrow> nat" where
  "callers es = length (filter (\<lambda>e. e = Caller) es)"

text \<open>No Lookup of the store refers to a Cell that is not in the store.\<close>

definition heapClosed :: "('v, 'r, 'z) heap_scheme \<Rightarrow> bool" where
  "heapClosed h = (\<forall>l \<in> set (lookupStore h). \<forall>c \<in> snd ` set (cells l). c < length (cellStore h))"

text \<open>
  The states of a repository as \<open>createRepository\<close> builds it: the lookups are in the
  store, the private hash has the entries of \<open>lookups\<close>, every category has a Lookup of its
  own, and that Lookup has the factory \<open>createRepository\<close> gave it.
\<close>

definition wellFormed :: "('v, 'r) state \<Rightarrow> bool" where
  "wellFormed s =
     (heapClosed s \<and>
      (\<forall>l \<in> snd ` set (own (lookups s)). l < length (lookupStore s)) \<and>
      set (own (compartmentLookups s)) \<subseteq> set (own (lookups s)) \<and>
      distinct (map fst (own (compartmentLookups s))) \<and>
      distinct (map snd (own (compartmentLookups s))) \<and>
      (\<forall>(key, l) \<in> set (own (compartmentLookups s)).
         \<exists>val. factory (lookupStore s ! l) = compartmentFactory (token s) key val))"

text \<open>A category is registered when the private hash has an entry of its own for it.\<close>

definition registered :: "string \<Rightarrow> ('v, 'r) state \<Rightarrow> bool" where
  "registered key s = (key \<in> fst ` set (own (compartmentLookups s)))"

text \<open>
  What a reader of the compartment of a category and id is given: the first two statements
  of \<open>modify\<close>, the \<open>get\<close> and the wait for the first value.
\<close>

definition currentValueOf :: "string \<Rightarrow> key \<Rightarrow> ('v, 'r) state \<Rightarrow> error + 'v" where
  "currentValueOf key ident s =
     (case get key ident s of
        (Throws e, s1) \<Rightarrow> Inl e
      | (Returns c, s1) \<Rightarrow> fst (firstValueFrom c s1))"

text \<open>The Lookups that \<open>createRepository\<close> allocates for the entries of a registry.\<close>

definition newLookups ::
  "dataStoreToken \<Rightarrow> (string \<times> ('v, 'r) repositoryCompartmentOptions) list
     \<Rightarrow> ('v, 'r) lookup list" where
  "newLookups tok entries =
     map (\<lambda>(key, val). \<lparr>factory = compartmentFactory tok key val, cells = []\<rparr>) entries"

subsection \<open>An example\<close>

text \<open>
  A registry with two categories: videos, whose resolver yields the title \<open>T\<close> followed by
  the id for a string id, and users, whose resolver always rejects.
\<close>

definition titleResolver :: "key \<Rightarrow> string + string" where
  "titleResolver k = (case k of StrKey i \<Rightarrow> Inr (''T'' @ i) | NumKey n \<Rightarrow> Inl ''not found'')"

definition offlineResolver :: "key \<Rightarrow> string + string" where
  "offlineResolver k = Inl ''offline''"

definition videoRegistry :: "(string \<times> (string, nat) repositoryCompartmentOptions) list" where
  "videoRegistry =
     [(''videos'', \<lparr>retention = None, resolver = titleResolver\<rparr>),
      (''users'', \<lparr>retention = Some 60, resolver = offlineResolver\<rparr>)]"

definition videoRepository :: "(string, nat) state" where
  "videoRepository = createRepository (DataStoreToken ''app'') videoRegistry emptyHeap"

text \<open>The same repository after \<open>get('videos', '1')\<close> and the completion of its load.\<close>

definition loadedRepository :: "(string, nat) state" where
  "loadedRepository = settleLoad 0 (snd (get ''videos'' (StrKey ''1'') videoRepository))"

text \<open>
  A registry that has the key \<open>__proto__\<close> as an own property, as the object literal
  \<open>{ ['__proto__']: ..., videos: ... }\<close> has, and the repository built from it.
\<close>

definition protoRegistry :: "(string \<times> (string, nat) repositoryCompartmentOptions) list" where
  "protoRegistry =
     [(''__proto__'', \<lparr>retention = None, resolver = titleResolver\<rparr>),
      (''videos'', \<lparr>retention = None, resolver = titleResolver\<rparr>)]"

definition protoRepository :: "(string, nat) state" where
  "protoRepository = createRepository (DataStoreToken ''app'') protoRegistry emptyHeap"

section \<open>Frame lemmas\<close>

text \<open>What each operation of the store leaves unchanged.\<close>

lemma startLoad_frame [simp]:
  "lookupStore (startLoad c h) = lookupStore h"
  "length (cellStore (startLoad c h)) = length (cellStore h)"
  "pushes (startLoad c h) = pushes h"
  by (simp_all add: startLoad_def Let_def split: dataSource.splits)

lemma startLoad_repo [simp]:
  "token (startLoad c s) = token s"
  "managedTokens (startLoad c s) = managedTokens s"
  "lookups (startLoad c s) = lookups s"
  "compartmentLookups (startLoad c s) = compartmentLookups s"
  by (simp_all add: startLoad_def Let_def split: dataSource.splits)

lemma settleLoad_frame [simp]:
  "lookupStore (settleLoad c h) = lookupStore h"
  "length (cellStore (settleLoad c h)) = length (cellStore h)"
  "pushes (settleLoad c h) = pushes h"
  "resolverCalls (settleLoad c h) = resolverCalls h"
  by (simp_all add: settleLoad_def Let_def split: dataSource.splits sum.splits)

lemma settleLoad_repo [simp]:
  "token (settleLoad c s) = token s"
  "managedTokens (settleLoad c s) = managedTokens s"
  "lookups (settleLoad c s) = lookups s"
  "compartmentLookups (settleLoad c s) = compartmentLookups s"
  by (simp_all add: settleLoad_def Let_def split: dataSource.splits sum.splits)

lemma next_frame [simp]:
  "lookupStore (DataCompartment_next c v h) = lookupStore h"
  "length (cellStore (DataCompartment_next c v h)) = length (cellStore h)"
  "resolverCalls (DataCompartment_next c v h) = resolverCalls h"
  "pushes (DataCompartment_next c v h) = pushes h @ [(c, v)]"
  by (simp_all add: DataCompartment_next_def Let_def)

lemma next_repo [simp]:
  "token (DataCompartment_next c v s) = token s"
  "managedTokens (DataCompartment_next c v s) = managedTokens s"
  "lookups (DataCompartment_next c v s) = lookups s"
  "compartmentLookups (DataCompartment_next c v s) = compartmentLookups s"
  by (simp_all add: DataCompartment_next_def Let_def)

lemma firstValueFrom_frame [simp]:
  "lookupStore (snd (firstValueFrom c h)) = lookupStore h"
  "length (cellStore (snd (firstValueFrom c h))) = length (cellStore h)"
  "pushes (snd (firstValueFrom c h)) = pushes h"
  by (simp_all add: firstValueFrom_def Let_def split: option.splits dataSource.splits sum.splits)

lemma firstValueFrom_repo [simp]:
  "token (snd (firstValueFrom c s)) = token s"
  "managedTokens (snd (firstValueFrom c s)) = managedTokens s"
  "lookups (snd (firstValueFrom c s)) = lookups s"
  "compartmentLookups (snd (firstValueFrom c s)) = compartmentLookups s"
  by (simp_all add: firstValueFrom_def Let_def split: option.splits dataSource.splits sum.splits)

lemma DataCompartment_frame [simp]:
  "fst (DataCompartment args h) = length (cellStore h)"
  "lookupStore (snd (DataCompartment args h)) = lookupStore h"
  "length (cellStore (snd (DataCompartment args h))) = Suc (length (cellStore h))"
  "pushes (snd (DataCompartment args h)) = pushes h"
  by (simp_all add: DataCompartment_def Let_def)

lemma DataCompartment_repo [simp]:
  "token (snd (DataCompartment args s)) = token s"
  "managedTokens (snd (DataCompartment args s)) = managedTokens s"
  "lookups (snd (DataCompartment args s)) = lookups s"
  "compartmentLookups (snd (DataCompartment args s)) = compartmentLookups s"
  by (simp_all add: DataCompartment_def Let_def)

lemma Lookup_find_repo [simp]:
  "token (snd (Lookup_find a k s)) = token s"
  "managedTokens (snd (Lookup_find a k s)) = managedTokens s"
  "lookups (snd (Lookup_find a k s)) = lookups s"
  "compartmentLookups (snd (Lookup_find a k s)) = compartmentLookups s"
  "pushes (snd (Lookup_find a k s)) = pushes s"
  by (simp_all add: Lookup_find_def Let_def split_beta split: option.splits)

lemma map_update_same: "f y = f (xs ! a) \<Longrightarrow> map f (xs[a := y]) = map f xs"
  by (induction xs arbitrary: a) (auto split: nat.splits)

lemma Lookup_find_frame [simp]:
  "length (lookupStore (snd (Lookup_find a k h))) = length (lookupStore h)"
  "map factory (lookupStore (snd (Lookup_find a k h))) = map factory (lookupStore h)"
  by (simp_all add: Lookup_find_def Let_def split_beta map_update_same split: option.splits)

lemma Lookup_clear_frame [simp]:
  "cellStore (Lookup_clear a k h) = cellStore h"
  "resolverCalls (Lookup_clear a k h) = resolverCalls h"
  "pushes (Lookup_clear a k h) = pushes h"
  "length (lookupStore (Lookup_clear a k h)) = length (lookupStore h)"
  "map factory (lookupStore (Lookup_clear a k h)) = map factory (lookupStore h)"
  by (simp_all add: Lookup_clear_def Let_def map_update_same)

lemma Lookup_clear_repo [simp]:
  "token (Lookup_clear a k s) = token s"
  "managedTokens (Lookup_clear a k s) = managedTokens s"
  "lookups (Lookup_clear a k s) = lookups s"
  "compartmentLookups (Lookup_clear a k s) = compartmentLookups s"
  by (simp_all add: Lookup_clear_def Let_def)

lemma Lookup_clearAll_frame [simp]:
  "cellStore (Lookup_clearAll a h) = cellStore h"
  "resolverCalls (Lookup_clearAll a h) = resolverCalls h"
  "pushes (Lookup_clearAll a h) = pushes h"
  "length (lookupStore (Lookup_clearAll a h)) = length (lookupStore h)"
  "map factory (lookupStore (Lookup_clearAll a h)) = map factory (lookupStore h)"
  by (simp_all add: Lookup_clearAll_def Let_def map_update_same)

lemma Lookup_clearAll_repo [simp]:
  "token (Lookup_clearAll a s) = token s"
  "managedTokens (Lookup_clearAll a s) = managedTokens s"
  "lookups (Lookup_clearAll a s) = lookups s"
  "compartmentLookups (Lookup_clearAll a s) = compartmentLookups s"
  by (simp_all add: Lookup_clearAll_def Let_def)

text \<open>Which Lookup a call changes, and which it leaves alone.\<close>

lemma Lookup_clear_other:
  "b \<noteq> a \<Longrightarrow> lookupStore (Lookup_clear a k h) ! b = lookupStore h ! b"
  by (simp add: Lookup_clear_def Let_def)

lemma Lookup_clearAll_other:
  "b \<noteq> a \<Longrightarrow> lookupStore (Lookup_clearAll a h) ! b = lookupStore h ! b"
  by (simp add: Lookup_clearAll_def Let_def)

lemma Lookup_clearAll_same:
  "a < length (lookupStore h) \<Longrightarrow> cells (lookupStore (Lookup_clearAll a h) ! a) = []"
  by (simp add: Lookup_clearAll_def Let_def)

lemma Lookup_find_other:
  "b \<noteq> a \<Longrightarrow> lookupStore (snd (Lookup_find a k h)) ! b = lookupStore h ! b"
  by (simp add: Lookup_find_def Let_def split_beta split: option.splits)

subsection \<open>The store stays closed\<close>

lemma heapClosed_same:
  "lookupStore h' = lookupStore h \<Longrightarrow> length (cellStore h') = length (cellStore h)
     \<Longrightarrow> heapClosed h' = heapClosed h"
  by (simp add: heapClosed_def)

lemma heapClosed_nth:
  "heapClosed h \<Longrightarrow> a < length (lookupStore h)
     \<Longrightarrow> \<forall>c \<in> snd ` set (cells (lookupStore h ! a)). c < length (cellStore h)"
  unfolding heapClosed_def using nth_mem by blast

lemma heapClosed_startLoad [simp]: "heapClosed (startLoad c h) = heapClosed h"
  by (rule heapClosed_same) simp_all

lemma heapClosed_settleLoad [simp]: "heapClosed (settleLoad c h) = heapClosed h"
  by (rule heapClosed_same) simp_all

lemma heapClosed_next [simp]: "heapClosed (DataCompartment_next c v h) = heapClosed h"
  by (rule heapClosed_same) simp_all

lemma heapClosed_firstValueFrom [simp]: "heapClosed (snd (firstValueFrom c h)) = heapClosed h"
  by (rule heapClosed_same) simp_all

lemma heapClosed_update:
  assumes "heapClosed h" and "\<forall>c \<in> snd ` set (cells l). c < n" and "length (cellStore h) \<le> n"
    and "lookupStore h' = (lookupStore h)[a := l]" and "length (cellStore h') = n"
  shows "heapClosed h'"
proof -
  have "x \<in> set (lookupStore h) \<or> x = l" if "x \<in> set (lookupStore h')" for x
    using that assms(4) set_update_subset_insert [of "lookupStore h" a l] by auto
  then show ?thesis
    using assms(1,2,3,5) unfolding heapClosed_def by force
qed

lemma heapClosed_Lookup_clear: "heapClosed h \<Longrightarrow> heapClosed (Lookup_clear a k h)"
proof (cases "a < length (lookupStore h)")
  case True
  assume h: "heapClosed h"
  have "set (AList.delete k (cells (lookupStore h ! a))) \<subseteq> set (cells (lookupStore h ! a))"
    by (auto simp: AList.delete_eq)
  moreover have "\<forall>c \<in> snd ` set (cells (lookupStore h ! a)). c < length (cellStore h)"
    using h True by (rule heapClosed_nth)
  ultimately have "\<forall>c \<in> snd ` set (AList.delete k (cells (lookupStore h ! a))). c < length (cellStore h)"
    by blast
  then show ?thesis
    by (intro heapClosed_update [OF h, where a = a and n = "length (cellStore h)"
          and l = "(lookupStore h ! a)\<lparr>cells := AList.delete k (cells (lookupStore h ! a))\<rparr>"])
       (simp_all add: Lookup_clear_def Let_def)
next
  case False
  assume "heapClosed h"
  with False show ?thesis by (simp add: Lookup_clear_def Let_def heapClosed_def list_update_beyond)
qed

lemma heapClosed_Lookup_clearAll: "heapClosed h \<Longrightarrow> heapClosed (Lookup_clearAll a h)"
  by (rule heapClosed_update [where a = a and n = "length (cellStore h)"
        and l = "(lookupStore h ! a)\<lparr>cells := []\<rparr>"])
     (simp_all add: Lookup_clearAll_def Let_def)

lemma heapClosed_Lookup_find:
  assumes "heapClosed h" and "a < length (lookupStore h)"
  shows "heapClosed (snd (Lookup_find a k h))"
proof (cases "map_of (cells (lookupStore h ! a)) k")
  case (Some c)
  with assms show ?thesis by (simp add: Lookup_find_def Let_def)
next
  case None
  have old: "\<forall>c \<in> snd ` set (cells (lookupStore h ! a)). c < length (cellStore h)"
    using assms by (rule heapClosed_nth)
  show ?thesis
    by (rule heapClosed_update [OF assms(1), where a = a and n = "Suc (length (cellStore h))"
          and l = "(lookupStore h ! a)\<lparr>cells := cells (lookupStore h ! a) @ [(k, length (cellStore h))]\<rparr>"])
       (use None old in \<open>auto simp: Lookup_find_def Let_def split_beta less_Suc_eq\<close>)
qed

lemma heapClosed_Lookup_find_any:
  assumes "heapClosed h"
  shows "heapClosed (snd (Lookup_find a k h))"
proof (cases "a < length (lookupStore h)")
  case True
  with assms show ?thesis by (rule heapClosed_Lookup_find)
next
  case False
  with assms show ?thesis
    by (auto simp: Lookup_find_def Let_def split_beta heapClosed_def list_update_beyond
        less_Suc_eq split: option.splits)
qed

subsection \<open>What the methods do to the state\<close>

lemma findLookup_own:
  "map_of (own (compartmentLookups s)) key = Some l \<Longrightarrow> findLookup key s = Returns (LookupObject l)"
  by (simp add: findLookup_def hashGet_def)

lemma findLookup_cases:
  "findLookup key s = Throws (UnknownCategory key) \<or>
   (\<exists>l. findLookup key s = Returns (LookupObject l)) \<or>
   (\<exists>n. findLookup key s = Returns (Inherited n))"
  by (cases "hashGet key (compartmentLookups s)") (simp_all add: findLookup_def)

lemma get_state_cases:
  "snd (get key ident s) = s \<or> (\<exists>l. snd (get key ident s) = snd (Lookup_find l ident s))"
  using findLookup_cases [of key s] by (auto simp: get_def split_beta)

lemma clear_state_cases:
  "snd (clear key ident s) = s \<or> (\<exists>l. snd (clear key ident s) = Lookup_clear l ident s)"
  using findLookup_cases [of key s] by (auto simp: clear_def)

lemma clearAll_state_cases:
  "snd (clearAll key s) = s \<or> (\<exists>l. snd (clearAll key s) = Lookup_clearAll l s)"
  using findLookup_cases [of key s] by (auto simp: clearAll_def)

subsection \<open>Well-formed states\<close>

lemma wellFormed_registered:
  assumes "wellFormed s" and "map_of (own (compartmentLookups s)) key = Some l"
  shows "l < length (lookupStore s)"
    and "\<exists>val. factory (lookupStore s ! l) = compartmentFactory (token s) key val"
proof -
  have mem: "(key, l) \<in> set (own (compartmentLookups s))"
    using assms(2) by (rule map_of_SomeD)
  then have "(key, l) \<in> set (own (lookups s))"
    using assms(1) by (auto simp: wellFormed_def)
  then have "l \<in> snd ` set (own (lookups s))" by force
  then show "l < length (lookupStore s)"
    using assms(1) unfolding wellFormed_def by blast
  show "\<exists>val. factory (lookupStore s ! l) = compartmentFactory (token s) key val"
    using assms(1) mem by (auto simp: wellFormed_def)
qed

lemma wellFormed_frame:
  assumes "wellFormed s" and "heapClosed s'"
    and "lookups s' = lookups s" and "compartmentLookups s' = compartmentLookups s"
    and "token s' = token s" and "map factory (lookupStore s') = map factory (lookupStore s)"
  shows "wellFormed s'"
proof -
  have len: "length (lookupStore s') = length (lookupStore s)"
    using assms(6) by (metis length_map)
  have fac: "factory (lookupStore s' ! l) = factory (lookupStore s ! l)"
    if "l < length (lookupStore s)" for l
    using that len assms(6) by (metis nth_map)
  have "\<exists>val. factory (lookupStore s' ! l) = compartmentFactory (token s') key val"
    if "(key, l) \<in> set (own (compartmentLookups s))" for key l
  proof -
    have "distinct (map fst (own (compartmentLookups s)))"
      using assms(1) by (simp add: wellFormed_def)
    then have "map_of (own (compartmentLookups s)) key = Some l"
      using that by simp
    from wellFormed_registered [OF assms(1) this] fac assms(5) show ?thesis by simp
  qed
  then show ?thesis
    using assms(1,2,3,4) len unfolding wellFormed_def by auto
qed

lemma wellFormed_Lookup_find:
  assumes "wellFormed s" shows "wellFormed (snd (Lookup_find l ident s))"
proof -
  have hc: "heapClosed s" using assms by (simp add: wellFormed_def)
  show ?thesis
    by (rule wellFormed_frame [OF assms heapClosed_Lookup_find_any [OF hc]]) simp_all
qed

lemma wellFormed_get:
  assumes "wellFormed s" shows "wellFormed (snd (get key ident s))"
  using get_state_cases [of key ident s] assms wellFormed_Lookup_find by auto

lemma wellFormed_clear:
  assumes "wellFormed s" shows "wellFormed (snd (clear key ident s))"
proof -
  have hc: "heapClosed s" using assms by (simp add: wellFormed_def)
  have "wellFormed (Lookup_clear l ident s)" for l
    by (rule wellFormed_frame [OF assms heapClosed_Lookup_clear [OF hc]]) simp_all
  then show ?thesis
    using clear_state_cases [of key ident s] assms by auto
qed

lemma wellFormed_clearAll:
  assumes "wellFormed s" shows "wellFormed (snd (clearAll key s))"
proof -
  have hc: "heapClosed s" using assms by (simp add: wellFormed_def)
  have "wellFormed (Lookup_clearAll l s)" for l
    by (rule wellFormed_frame [OF assms heapClosed_Lookup_clearAll [OF hc]]) simp_all
  then show ?thesis
    using clearAll_state_cases [of key s] assms by auto
qed

lemma wellFormed_firstValueFrom:
  assumes "wellFormed s" shows "wellFormed (snd (firstValueFrom c s))"
  by (rule wellFormed_frame [OF assms]) (use assms in \<open>simp_all add: wellFormed_def\<close>)

lemma wellFormed_next:
  assumes "wellFormed s" shows "wellFormed (DataCompartment_next c v s)"
  by (rule wellFormed_frame [OF assms]) (use assms in \<open>simp_all add: wellFormed_def\<close>)

lemma wellFormed_settleLoad:
  assumes "wellFormed s" shows "wellFormed (settleLoad c s)"
  by (rule wellFormed_frame [OF assms]) (use assms in \<open>simp_all add: wellFormed_def\<close>)

lemma wellFormed_modify:
  assumes "wellFormed s" shows "wellFormed (snd (modify key ident modifier s))"
proof -
  have 1: "wellFormed (snd (get key ident s))"
    using assms by (rule wellFormed_get)
  have 2: "wellFormed s2" if "firstValueFrom c (snd (get key ident s)) = (r, s2)" for c r s2
    using wellFormed_firstValueFrom [OF 1, of c] that by simp
  show ?thesis
    using 1 2
    by (auto simp: modify_def split: prod.splits outcome.splits sum.splits intro!: wellFormed_next)
qed

subsection \<open>reset\<close>

lemma clearEach_simps [simp]:
  "clearEach [] s = s"
  "clearEach ((key, l) # xs) s = clearEach xs (Lookup_clearAll l s)"
  by (simp_all add: clearEach_def)

lemma reset_clearEach: "reset s = clearEach (own (lookups s)) s"
  by (simp add: reset_def)

lemma clearEach_frame [simp]:
  "cellStore (clearEach xs s) = cellStore s"
  "resolverCalls (clearEach xs s) = resolverCalls s"
  "pushes (clearEach xs s) = pushes s"
  "token (clearEach xs s) = token s"
  "managedTokens (clearEach xs s) = managedTokens s"
  "lookups (clearEach xs s) = lookups s"
  "compartmentLookups (clearEach xs s) = compartmentLookups s"
  "length (lookupStore (clearEach xs s)) = length (lookupStore s)"
  "map factory (lookupStore (clearEach xs s)) = map factory (lookupStore s)"
  by (induction xs arbitrary: s; auto)+

lemma heapClosed_clearEach: "heapClosed s \<Longrightarrow> heapClosed (clearEach xs s)"
  by (induction xs arbitrary: s) (auto simp: heapClosed_Lookup_clearAll)

lemma clearEach_other:
  "l \<notin> snd ` set xs \<Longrightarrow> lookupStore (clearEach xs s) ! l = lookupStore s ! l"
  by (induction xs arbitrary: s) (auto simp: Lookup_clearAll_other)

lemma clearEach_cleared:
  "l \<in> snd ` set xs \<Longrightarrow> l < length (lookupStore s) \<Longrightarrow> cells (lookupStore (clearEach xs s) ! l) = []"
proof (induction xs arbitrary: s)
  case Nil
  then show ?case by simp
next
  case (Cons x xs)
  obtain key a where x: "x = (key, a)" by (cases x)
  show ?case
  proof (cases "l \<in> snd ` set xs")
    case True
    then show ?thesis
      using Cons.IH [of "Lookup_clearAll a s"] Cons.prems(2) by (simp add: x)
  next
    case False
    then have "l = a" using Cons.prems(1) by (simp add: x)
    then show ?thesis
      using False Cons.prems(2) by (simp add: x clearEach_other Lookup_clearAll_same)
  qed
qed

lemma wellFormed_reset:
  assumes "wellFormed s" shows "wellFormed (reset s)"
  unfolding reset_clearEach
  by (rule wellFormed_frame [OF assms heapClosed_clearEach]) (use assms in \<open>simp_all add: wellFormed_def\<close>)

lemma wellFormed_exec: "wellFormed s \<Longrightarrow> wellFormed (exec op s)"
  by (cases op) (simp_all add: wellFormed_get wellFormed_clear wellFormed_clearAll wellFormed_modify wellFormed_reset)

lemma wellFormed_run: "wellFormed s \<Longrightarrow> wellFormed (run ops s)"
  unfolding run_def by (induction ops arbitrary: s) (simp_all add: wellFormed_exec)

subsection \<open>createRepository\<close>

lemma update_fresh: "k \<notin> fst ` set al \<Longrightarrow> AList.update k v al = al @ [(k, v)]"
  by (induction al) auto

lemma hashSet_fresh:
  "key \<noteq> ''__proto__'' \<Longrightarrow> key \<notin> fst ` set (own obj)
     \<Longrightarrow> hashSet key l obj = obj\<lparr>own := own obj @ [(key, l)]\<rparr>"
  by (simp add: hashSet_def update_fresh)

lemma hashSet_proto:
  "''__proto__'' \<notin> fst ` set (own obj) \<Longrightarrow> hashSet ''__proto__'' l obj = obj\<lparr>proto := Some l\<rparr>"
  by (simp add: hashSet_def map_of_eq_None_iff)

lemma fold_hashSet_distinct:
  "distinct (map fst xs) \<Longrightarrow> fst ` set xs \<inter> fst ` set (own acc) = {}
     \<Longrightarrow> ''__proto__'' \<notin> fst ` set xs
     \<Longrightarrow> fold (\<lambda>(key, val) cl. hashSet key val cl) xs acc = acc\<lparr>own := own acc @ xs\<rparr>"
proof (induction xs arbitrary: acc)
  case Nil
  then show ?case by simp
next
  case (Cons x xs)
  obtain k v where x: "x = (k, v)" by (cases x)
  have fresh: "k \<notin> fst ` set (own acc)" "k \<noteq> ''__proto__''"
    using Cons.prems(2,3) by (auto simp: x)
  have "fst ` set xs \<inter> fst ` set (own (acc\<lparr>own := own acc @ [(k, v)]\<rparr>)) = {}"
    using Cons.prems by (auto simp: x)
  moreover have "''__proto__'' \<notin> fst ` set xs" using Cons.prems(3) by simp
  ultimately show ?case
    using Cons.IH [of "acc\<lparr>own := own acc @ [(k, v)]\<rparr>"] Cons.prems(1) fresh
    by (simp add: x hashSet_fresh)
qed

lemma createLookups_simps [simp]:
  "createLookups tok [] acc = acc"
  "createLookups tok ((key, val) # es) (lks, h) =
     createLookups tok es
       (hashSet key (length (lookupStore h)) lks,
        h\<lparr>lookupStore := lookupStore h @ [\<lparr>factory = compartmentFactory tok key val, cells = []\<rparr>]\<rparr>)"
  by (simp_all add: createLookups_def Lookup_def)

lemma createLookups_store:
  "lookupStore (snd (createLookups tok es (lks, h))) = lookupStore h @ newLookups tok es"
  "cellStore (snd (createLookups tok es (lks, h))) = cellStore h"
  "resolverCalls (snd (createLookups tok es (lks, h))) = resolverCalls h"
  "pushes (snd (createLookups tok es (lks, h))) = pushes h"
  by (induction es arbitrary: lks h; auto simp: newLookups_def)+

lemma createLookups_lookups:
  "distinct (map fst es) \<Longrightarrow> fst ` set es \<inter> fst ` set (own lks) = {}
     \<Longrightarrow> ''__proto__'' \<notin> fst ` set (own lks)
     \<Longrightarrow> own (fst (createLookups tok es (lks, h))) =
         own lks @ filter (\<lambda>(key, l). key \<noteq> ''__proto__'')
           (zip (map fst es) [length (lookupStore h) ..< length (lookupStore h) + length es])"
proof (induction es arbitrary: lks h)
  case Nil
  then show ?case by simp
next
  case (Cons e es)
  obtain key val where e: "e = (key, val)" by (cases e)
  let ?n = "length (lookupStore h)"
  let ?h = "h\<lparr>lookupStore := lookupStore h @ [\<lparr>factory = compartmentFactory tok key val, cells = []\<rparr>]\<rparr>"
  have fresh: "key \<notin> fst ` set (own lks)" using Cons.prems(2) by (auto simp: e)
  have upt: "[?n ..< ?n + length (e # es)] = ?n # [Suc ?n ..< Suc ?n + length es]"
    by (subst upt_conv_Cons) simp_all
  have d: "distinct (map fst es)" using Cons.prems(1) by simp
  show ?case
  proof (cases "key = ''__proto__''")
    case True
    have set: "hashSet key ?n lks = lks\<lparr>proto := Some ?n\<rparr>"
      using Cons.prems(3) by (simp add: True hashSet_proto)
    have disj: "fst ` set es \<inter> fst ` set (own (lks\<lparr>proto := Some ?n\<rparr>)) = {}"
      using Cons.prems(2) by auto
    show ?thesis
      using Cons.IH [OF d disj, of ?h] Cons.prems(3)
      unfolding upt by (simp add: e True hashSet_proto)
  next
    case False
    have set: "hashSet key ?n lks = lks\<lparr>own := own lks @ [(key, ?n)]\<rparr>"
      using False fresh by (rule hashSet_fresh)
    have disj: "fst ` set es \<inter> fst ` set (own (lks\<lparr>own := own lks @ [(key, ?n)]\<rparr>)) = {}"
      using Cons.prems(1,2) by (auto simp: e)
    have np: "''__proto__'' \<notin> fst ` set (own (lks\<lparr>own := own lks @ [(key, ?n)]\<rparr>))"
      using Cons.prems(3) False by auto
    show ?thesis
      using Cons.IH [OF d disj np, of ?h]
      unfolding upt by (simp add: e set False)
  qed
qed

text \<open>The own entries of the two hashes of a repository just built.\<close>

lemma createRepository_fields:
  fixes tok registry h
  assumes "distinct (map fst registry)"
  defines "s \<equiv> createRepository tok registry h"
  defines "ls \<equiv> filter (\<lambda>(key, l). key \<noteq> ''__proto__'')
     (zip (map fst registry) [length (lookupStore h) ..< length (lookupStore h) + length registry])"
  shows "own (lookups s) = ls" and "compartmentLookups s = \<lparr>own = ls, proto = None\<rparr>"
    and "lookupStore s = lookupStore h @ newLookups tok registry"
    and "cellStore s = cellStore h" and "resolverCalls s = resolverCalls h" and "pushes s = pushes h"
    and "token s = tok" and "managedTokens s = map (\<lambda>(key, val). compartment tok key) registry"
proof -
  have lk: "own (fst (createLookups tok registry (emptyHash, h))) = ls"
    using createLookups_lookups [OF assms(1), of emptyHash tok h] by (simp add: ls_def emptyHash_def)
  show "own (lookups s) = ls"
    using lk by (simp add: s_def createRepository_def Repository_def split_beta)
  have "distinct (map fst (zip (map fst registry)
      [length (lookupStore h) ..< length (lookupStore h) + length registry]))"
    using assms(1) by (simp add: map_fst_zip)
  then have d: "distinct (map fst ls)"
    unfolding ls_def by (rule distinct_map_filter)
  have np: "''__proto__'' \<notin> fst ` set ls"
    by (auto simp: ls_def)
  have "fold (\<lambda>(key, val) cl. hashSet key val cl) ls emptyHash = \<lparr>own = ls, proto = None\<rparr>"
    using fold_hashSet_distinct [OF d _ np, of emptyHash] by (simp add: emptyHash_def)
  then show "compartmentLookups s = \<lparr>own = ls, proto = None\<rparr>"
    using lk by (simp add: s_def createRepository_def Repository_def split_beta)
  show "lookupStore s = lookupStore h @ newLookups tok registry"
    "cellStore s = cellStore h" "resolverCalls s = resolverCalls h" "pushes s = pushes h"
    "token s = tok" "managedTokens s = map (\<lambda>(key, val). compartment tok key) registry"
    by (simp_all add: s_def createRepository_def Repository_def split_beta createLookups_store)
qed

lemma createRepository_entry:
  fixes tok registry h
  assumes "distinct (map fst registry)" and "i < length registry"
    and "fst (registry ! i) \<noteq> ''__proto__''"
  defines "s \<equiv> createRepository tok registry h"
  shows "map_of (own (compartmentLookups s)) (fst (registry ! i)) = Some (length (lookupStore h) + i)"
    and "lookupStore s ! (length (lookupStore h) + i) =
           \<lparr>factory = compartmentFactory tok (fst (registry ! i)) (snd (registry ! i)), cells = []\<rparr>"
proof -
  let ?n = "length (lookupStore h)"
  let ?z = "zip (map fst registry) [?n ..< ?n + length registry]"
  let ?ls = "filter (\<lambda>(key, l). key \<noteq> ''__proto__'') ?z"
  have "distinct (map fst ?z)" using assms(1) by (simp add: map_fst_zip)
  then have d: "distinct (map fst ?ls)" by (rule distinct_map_filter)
  have "(fst (registry ! i), ?n + i) \<in> set ?z"
    using assms(2) by (auto simp: set_zip intro!: exI [of _ i])
  then have "(fst (registry ! i), ?n + i) \<in> set ?ls"
    using assms(3) by simp
  then have "map_of ?ls (fst (registry ! i)) = Some (?n + i)"
    using d by simp
  then show "map_of (own (compartmentLookups s)) (fst (registry ! i)) = Some (?n + i)"
    using assms(1) by (simp add: s_def createRepository_fields)
  show "lookupStore s ! (?n + i) =
           \<lparr>factory = compartmentFactory tok (fst (registry ! i)) (snd (registry ! i)), cells = []\<rparr>"
    using assms(1,2) by (simp add: s_def createRepository_fields newLookups_def split_beta)
qed

lemma wellFormed_createRepository:
  assumes "distinct (map fst registry)" and "heapClosed h"
  shows "wellFormed (createRepository tok registry h)"
proof -
  let ?s = "createRepository tok registry h"
  let ?n = "length (lookupStore h)"
  let ?z = "zip (map fst registry) [?n ..< ?n + length registry]"
  let ?ls = "filter (\<lambda>(key, l). key \<noteq> ''__proto__'') ?z"
  note f = createRepository_fields [OF assms(1), of tok h]
  have closed: "heapClosed ?s"
    using assms(2) by (auto simp: heapClosed_def f newLookups_def)
  have addr: "\<forall>l \<in> snd ` set ?ls. l < length (lookupStore ?s)"
    by (auto simp: f newLookups_def dest: set_zip_rightD)
  have "distinct (map fst ?z)" using assms(1) by (simp add: map_fst_zip)
  then have d1: "distinct (map fst ?ls)" by (rule distinct_map_filter)
  have "distinct (map snd ?z)" by (simp add: map_snd_zip)
  then have d2: "distinct (map snd ?ls)" by (rule distinct_map_filter)
  have fac: "\<exists>val. factory (lookupStore ?s ! l) = compartmentFactory tok key val"
    if "(key, l) \<in> set ?ls" for key l
  proof -
    from that obtain i where i: "i < length registry" "key = fst (registry ! i)" "l = ?n + i"
      "key \<noteq> ''__proto__''"
      by (auto simp: set_zip)
    with createRepository_entry(2) [OF assms(1) i(1), of tok h] show ?thesis by auto
  qed
  show ?thesis
    unfolding wellFormed_def using closed addr fac d1 d2
    by (auto simp: f)
qed

lemma createRepository_proto:
  assumes "distinct (map fst registry)"
  shows "proto (compartmentLookups (createRepository tok registry h)) = None"
  by (simp add: createRepository_fields [OF assms])

text \<open>
  Every entry of the registry under a key other than \<open>__proto__\<close> has a Lookup of its own,
  registered under its key, empty, and with the factory of the entry.
\<close>

lemma createRepository_entry_lookup:
  assumes "distinct (map fst registry)" and "(key, val) \<in> set registry" and "key \<noteq> ''__proto__''"
  shows "\<exists>l. findLookup key (createRepository tok registry h) = Returns (LookupObject l) \<and>
             cells (lookupStore (createRepository tok registry h) ! l) = [] \<and>
             factory (lookupStore (createRepository tok registry h) ! l)
               = compartmentFactory tok key val"
proof -
  from assms(2) obtain i where i: "i < length registry" "registry ! i = (key, val)"
    by (auto simp: in_set_conv_nth)
  have k: "fst (registry ! i) \<noteq> ''__proto__''" using i(2) assms(3) by simp
  note e = createRepository_entry [OF assms(1) i(1) k, of tok h]
  have "findLookup key (createRepository tok registry h)
          = Returns (LookupObject (length (lookupStore h) + i))"
    using e(1) i(2) by (simp add: findLookup_own)
  moreover have "cells (lookupStore (createRepository tok registry h) ! (length (lookupStore h) + i)) = []"
    "factory (lookupStore (createRepository tok registry h) ! (length (lookupStore h) + i))
       = compartmentFactory tok key val"
    using e(2) i(2) by simp_all
  ultimately show ?thesis by blast
qed

subsection \<open>Reading a state\<close>

lemma registered_iff: "registered key s \<longleftrightarrow> (\<exists>l. map_of (own (compartmentLookups s)) key = Some l)"
  unfolding registered_def by (metis map_of_eq_None_iff not_None_eq)

lemma unregistered_None: "\<not> registered key s \<Longrightarrow> map_of (own (compartmentLookups s)) key = None"
  by (simp add: registered_def map_of_eq_None_iff)

text \<open>What \<open>findLookup\<close> answers for a key that is not registered.\<close>

lemma findLookup_unregistered:
  assumes "\<not> registered key s" and "\<not> inherited key" and "proto (compartmentLookups s) = None"
  shows "findLookup key s = Throws (UnknownCategory key)"
  using unregistered_None [OF assms(1)] assms(2,3)
  by (simp add: findLookup_def hashGet_def inherited_def)

lemma findLookup_inherited:
  assumes "\<not> registered key s" and "inherited key" and "proto (compartmentLookups s) = None"
  shows "findLookup key s = Returns (Inherited key)"
  using unregistered_None [OF assms(1)] assms(2,3)
  by (auto simp: findLookup_def hashGet_def inherited_def)

lemma get_inherited:
  assumes "\<not> registered key s" and "inherited key" and "proto (compartmentLookups s) = None"
  shows "get key ident s = (Throws (TypeError ''lookup.find is not a function''), s)"
  using findLookup_inherited [OF assms] by (simp add: get_def)

lemma compartmentOf_SomeD:
  assumes "compartmentOf key ident s = Some c"
  shows "\<exists>l. map_of (own (compartmentLookups s)) key = Some l \<and> map_of (cells (lookupStore s ! l)) ident = Some c"
  using assms by (auto simp: compartmentOf_def cellsOf_def split: option.splits)

lemma compartmentOf_in_store:
  assumes "wellFormed s" and "compartmentOf key ident s = Some c"
  shows "c < length (cellStore s)"
proof -
  from compartmentOf_SomeD [OF assms(2)] obtain l where
    l: "map_of (own (compartmentLookups s)) key = Some l" "map_of (cells (lookupStore s ! l)) ident = Some c"
    by blast
  have "l < length (lookupStore s)" using wellFormed_registered(1) [OF assms(1) l(1)] .
  moreover have "heapClosed s" using assms(1) by (simp add: wellFormed_def)
  moreover have "c \<in> snd ` set (cells (lookupStore s ! l))"
    using map_of_SomeD [OF l(2)] by force
  ultimately show ?thesis using heapClosed_nth by blast
qed

lemma get_existing:
  "compartmentOf key ident s = Some c \<Longrightarrow> get key ident s = (Returns c, s)"
  by (auto simp: get_def findLookup_own Lookup_find_def dest!: compartmentOf_SomeD)

lemma firstValueFrom_present:
  "current (cellStore h ! c) = Some V \<Longrightarrow> firstValueFrom c h = (Inr V, h)"
  by (simp add: firstValueFrom_def)

lemma next_cell:
  "c < length (cellStore h) \<Longrightarrow>
     current (cellStore (DataCompartment_next c v h) ! c) = Some v \<and>
     stream (cellStore (DataCompartment_next c v h) ! c) = stream (cellStore h ! c) @ [v]"
  by (simp add: DataCompartment_next_def Let_def)

lemma compartmentOf_next [simp]:
  "compartmentOf key ident (DataCompartment_next c v s) = compartmentOf key ident s"
  by (simp add: compartmentOf_def cellsOf_def split: option.splits)

subsection \<open>The calls of the repository\<close>

lemma get_repo [simp]:
  "token (snd (get key ident s)) = token s"
  "managedTokens (snd (get key ident s)) = managedTokens s"
  "lookups (snd (get key ident s)) = lookups s"
  "compartmentLookups (snd (get key ident s)) = compartmentLookups s"
  "pushes (snd (get key ident s)) = pushes s"
  using get_state_cases [of key ident s] by auto

lemma nth_startLoad_other:
  "c' \<noteq> c \<Longrightarrow> cellStore (startLoad c h) ! c' = cellStore h ! c'"
  by (simp add: startLoad_def Let_def split: dataSource.splits)

lemma nth_settleLoad_other:
  "c' \<noteq> c \<Longrightarrow> cellStore (settleLoad c h) ! c' = cellStore h ! c'"
  by (simp add: settleLoad_def Let_def split: dataSource.splits sum.splits)

lemma firstValueFrom_keeps:
  assumes "current (cellStore h ! c') = Some V"
  shows "cellStore (snd (firstValueFrom c h)) ! c' = cellStore h ! c'"
proof (cases "c' = c")
  case True
  with assms show ?thesis by (simp add: firstValueFrom_present)
next
  case False
  then show ?thesis
    by (simp add: firstValueFrom_def Let_def nth_startLoad_other nth_settleLoad_other
        split: option.splits dataSource.splits sum.splits)
qed

lemma Lookup_find_keeps:
  "c' < length (cellStore h) \<Longrightarrow> cellStore (snd (Lookup_find a k h)) ! c' = cellStore h ! c'"
  by (simp add: Lookup_find_def DataCompartment_def Let_def nth_startLoad_other nth_append
      split: option.splits)

lemma get_keeps:
  "c' < length (cellStore s) \<Longrightarrow> cellStore (snd (get key ident s)) ! c' = cellStore s ! c'"
  using get_state_cases [of key ident s] by (auto simp: Lookup_find_keeps)

lemma currentValueOf_get:
  "fst (get key ident s) = Returns c \<Longrightarrow>
     currentValueOf key ident s = fst (firstValueFrom c (snd (get key ident s)))"
  by (simp add: currentValueOf_def split_beta)

lemma currentValueOf_Inr:
  assumes "currentValueOf key ident s = Inr v"
  shows "\<exists>c. fst (get key ident s) = Returns c \<and>
           fst (firstValueFrom c (snd (get key ident s))) = Inr v"
  using assms by (cases "fst (get key ident s)") (simp_all add: currentValueOf_def split_beta)

lemma currentValueOf_holding:
  "compartmentOf key ident s = Some c \<Longrightarrow> current (cellStore s ! c) = Some V
     \<Longrightarrow> currentValueOf key ident s = Inr V"
  by (simp add: currentValueOf_def get_existing firstValueFrom_present)

lemma clear_repo [simp]:
  "token (snd (clear key ident s)) = token s"
  "managedTokens (snd (clear key ident s)) = managedTokens s"
  "lookups (snd (clear key ident s)) = lookups s"
  "compartmentLookups (snd (clear key ident s)) = compartmentLookups s"
  using clear_state_cases [of key ident s] by auto

lemma clearAll_repo [simp]:
  "token (snd (clearAll key s)) = token s"
  "managedTokens (snd (clearAll key s)) = managedTokens s"
  "lookups (snd (clearAll key s)) = lookups s"
  "compartmentLookups (snd (clearAll key s)) = compartmentLookups s"
  using clearAll_state_cases [of key s] by auto

lemma modify_repo [simp]:
  "token (snd (modify key ident modifier s)) = token s"
  "managedTokens (snd (modify key ident modifier s)) = managedTokens s"
  "lookups (snd (modify key ident modifier s)) = lookups s"
  "compartmentLookups (snd (modify key ident modifier s)) = compartmentLookups s"
proof -
  have "snd (modify key ident modifier s) = snd (get key ident s) \<or>
        (\<exists>c. snd (modify key ident modifier s) = snd (firstValueFrom c (snd (get key ident s)))) \<or>
        (\<exists>c v. snd (modify key ident modifier s) =
           DataCompartment_next c v (snd (firstValueFrom c (snd (get key ident s)))))"
    by (auto simp: modify_def split_beta split: outcome.splits sum.splits)
  then show "token (snd (modify key ident modifier s)) = token s"
    "managedTokens (snd (modify key ident modifier s)) = managedTokens s"
    "lookups (snd (modify key ident modifier s)) = lookups s"
    "compartmentLookups (snd (modify key ident modifier s)) = compartmentLookups s"
    by auto
qed

lemma reset_repo [simp]:
  "token (reset s) = token s"
  "managedTokens (reset s) = managedTokens s"
  "lookups (reset s) = lookups s"
  "compartmentLookups (reset s) = compartmentLookups s"
  by (simp_all add: reset_def)

lemma exec_repo [simp]:
  "token (exec op s) = token s"
  "managedTokens (exec op s) = managedTokens s"
  "lookups (exec op s) = lookups s"
  "compartmentLookups (exec op s) = compartmentLookups s"
  by (cases op; simp)+

lemma run_repo [simp]:
  "token (run ops s) = token s"
  "managedTokens (run ops s) = managedTokens s"
  "lookups (run ops s) = lookups s"
  "compartmentLookups (run ops s) = compartmentLookups s"
  unfolding run_def by (induction ops arbitrary: s; simp)+

lemma distinct_lookups:
  assumes "wellFormed s" and "map_of (own (compartmentLookups s)) a = Some la"
    and "map_of (own (compartmentLookups s)) b = Some lb" and "a \<noteq> b"
  shows "la \<noteq> lb"
proof
  assume eq: "la = lb"
  have inj: "inj_on snd (set (own (compartmentLookups s)))"
    using assms(1) by (simp add: wellFormed_def distinct_map)
  have mem: "(a, la) \<in> set (own (compartmentLookups s))" "(b, lb) \<in> set (own (compartmentLookups s))"
    using assms(2,3) by (auto dest: map_of_SomeD)
  have "snd (a, la) = snd (b, lb)" using eq by simp
  from inj_onD [OF inj this mem] assms(4) show False by simp
qed

lemma get_absent:
  fixes s :: "('v, 'r) state"
  assumes "wellFormed s" and "map_of (own (compartmentLookups s)) key = Some l"
    and "map_of (cells (lookupStore s ! l)) ident = None"
    and "factory (lookupStore s ! l) = compartmentFactory (token s) key val"
  defines "n \<equiv> length (cellStore s)"
  shows "fst (get key ident s) = Returns n"
    and "cellStore (snd (get key ident s)) =
           cellStore s @ [\<lparr>compartmentToken = compartment (token s) key,
             options = \<lparr>strategy = Auto, retentionOption = retention val, defaultValue = None,
                        source = ConfiguredDataSource (resolver val) ident\<rparr>,
             current = None, stream = [], loading = True\<rparr>]"
    and "resolverCalls (snd (get key ident s)) = resolverCalls s @ [(compartment (token s) key, ident)]"
    and "compartmentOf key ident (snd (get key ident s)) = Some n"
proof -
  have l: "l < length (lookupStore s)"
    using wellFormed_registered(1) [OF assms(1,2)] .
  show "fst (get key ident s) = Returns n"
    using assms(3) by (simp add: get_def findLookup_own [OF assms(2)] Lookup_find_def n_def split_beta Let_def)
  show "cellStore (snd (get key ident s)) =
           cellStore s @ [\<lparr>compartmentToken = compartment (token s) key,
             options = \<lparr>strategy = Auto, retentionOption = retention val, defaultValue = None,
                        source = ConfiguredDataSource (resolver val) ident\<rparr>,
             current = None, stream = [], loading = True\<rparr>]"
    using assms(3,4)
    by (simp add: get_def findLookup_own [OF assms(2)] Lookup_find_def DataCompartment_def
        startLoad_def compartmentFactory_def Let_def split_beta)
  show "resolverCalls (snd (get key ident s)) = resolverCalls s @ [(compartment (token s) key, ident)]"
    using assms(3,4)
    by (simp add: get_def findLookup_own [OF assms(2)] Lookup_find_def DataCompartment_def
        startLoad_def compartmentFactory_def Let_def split_beta)
  show "compartmentOf key ident (snd (get key ident s)) = Some n"
    using assms(2,3) l
    by (simp add: compartmentOf_def cellsOf_def get_def findLookup_own [OF assms(2)]
        Lookup_find_def n_def split_beta Let_def map_add_def)
qed

lemma compartmentOf_None:
  assumes "registered key s" and "compartmentOf key ident s = None"
  shows "\<exists>l. map_of (own (compartmentLookups s)) key = Some l \<and> map_of (cells (lookupStore s ! l)) ident = None"
  using assms by (auto simp: registered_iff compartmentOf_def cellsOf_def)

lemma compartmentOf_settleLoad [simp]:
  "compartmentOf key ident (settleLoad c s) = compartmentOf key ident s"
  by (simp add: compartmentOf_def cellsOf_def split: option.splits)

lemma registered_settleLoad [simp]: "registered key (settleLoad c s) = registered key s"
  by (simp add: registered_def)

lemma race_existing:
  "compartmentOf key ident s = Some c \<Longrightarrow>
     fst (race key ident es s) = replicate (callers es) (Returns c) \<and>
     resolverCalls (snd (race key ident es s)) = resolverCalls s \<and>
     length (cellStore (snd (race key ident es s))) = length (cellStore s) \<and>
     compartmentOf key ident (snd (race key ident es s)) = Some c"
proof (induction es arbitrary: s)
  case Nil
  then show ?case by (simp add: callers_def)
next
  case (Cons e es)
  show ?case
  proof (cases e)
    case Caller
    with Cons.IH [OF Cons.prems] Cons.prems show ?thesis
      by (simp add: get_existing callers_def split_beta)
  next
    case (LoadSettles c')
    with Cons.IH [of "settleLoad c' s"] Cons.prems show ?thesis
      by (simp add: callers_def)
  qed
qed

subsection \<open>The example states\<close>

lemmas example_defs =
  videoRepository_def videoRegistry_def loadedRepository_def protoRepository_def
  protoRegistry_def createRepository_def hashSet_def hashGet_def emptyHash_def
  createLookups_def Lookup_def Repository_def emptyHeap_def compartmentFactory_def
  compartment_def get_def findLookup_def Lookup_find_def DataCompartment_def startLoad_def
  settleLoad_def Let_def titleResolver_def offlineResolver_def

lemma heapClosed_emptyHeap: "heapClosed emptyHeap"
  by (simp add: heapClosed_def emptyHeap_def)

lemma wellFormed_videoRepository: "wellFormed videoRepository"
  unfolding videoRepository_def
  by (rule wellFormed_createRepository [OF _ heapClosed_emptyHeap]) (simp add: videoRegistry_def)

lemma wellFormed_loadedRepository: "wellFormed loadedRepository"
  unfolding loadedRepository_def
  by (intro wellFormed_settleLoad wellFormed_get wellFormed_videoRepository)

lemma videoRepository_fields:
  "compartmentLookups videoRepository = \<lparr>own = [(''videos'', 0), (''users'', 1)], proto = None\<rparr>"
  "lookups videoRepository = \<lparr>own = [(''videos'', 0), (''users'', 1)], proto = None\<rparr>"
  "cells (lookupStore videoRepository ! 0) = []"
  "cells (lookupStore videoRepository ! 1) = []"
  "cellStore videoRepository = []"
  "resolverCalls videoRepository = []"
  "pushes videoRepository = []"
  "token videoRepository = DataStoreToken ''app''"
  by (simp_all add: example_defs)

lemma loadedRepository_fields:
  "compartmentLookups loadedRepository = \<lparr>own = [(''videos'', 0), (''users'', 1)], proto = None\<rparr>"
  "lookups loadedRepository = \<lparr>own = [(''videos'', 0), (''users'', 1)], proto = None\<rparr>"
  "cells (lookupStore loadedRepository ! 0) = [(StrKey ''1'', 0)]"
  "cells (lookupStore loadedRepository ! 1) = []"
  "length (cellStore loadedRepository) = 1"
  "current (cellStore loadedRepository ! 0) = Some ''T1''"
  "stream (cellStore loadedRepository ! 0) = [''T1'']"
  "resolverCalls loadedRepository = [(CompartmentToken (DataStoreToken ''app'') ''videos'', StrKey ''1'')]"
  "pushes loadedRepository = []"
  "token loadedRepository = DataStoreToken ''app''"
  by (simp_all add: example_defs)


section \<open>The claims\<close>

text \<open>
  C1. In a repository built by \<open>createRepository\<close>, take a registered category and an id
  whose compartment \<open>c\<close> currently holds the value \<open>V\<close>, and a modifier that resolves to
  \<open>V'\<close> on \<open>V\<close>. Then the promise of \<open>modify\<close> is fulfilled, the category still maps the
  id to the same compartment, that compartment holds \<open>V'\<close> and has emitted it as its latest
  value, exactly one push was made (of \<open>V'\<close> onto \<open>c\<close>), no resolver was invoked and no
  compartment was created.
\<close>

theorem modify_pushes_result:
  assumes "wellFormed s"
    and "compartmentOf key ident s = Some c"
    and "current (cellStore s ! c) = Some V"
    and "modifier V = Inr V'"
  shows "fst (modify key ident modifier s) = Returns (Fulfilled ()) \<and>
         compartmentOf key ident (snd (modify key ident modifier s)) = Some c \<and>
         current (cellStore (snd (modify key ident modifier s)) ! c) = Some V' \<and>
         stream (cellStore (snd (modify key ident modifier s)) ! c) = stream (cellStore s ! c) @ [V'] \<and>
         pushes (snd (modify key ident modifier s)) = pushes s @ [(c, V')] \<and>
         resolverCalls (snd (modify key ident modifier s)) = resolverCalls s \<and>
         length (cellStore (snd (modify key ident modifier s))) = length (cellStore s)"
proof -
  have m: "modify key ident modifier s = (Returns (Fulfilled ()), DataCompartment_next c V' s)"
    using assms(2,3,4) by (simp add: modify_def get_existing firstValueFrom_present)
  have c: "c < length (cellStore s)"
    using assms(1,2) by (rule compartmentOf_in_store)
  show ?thesis
    using next_cell [OF c, of V'] assms(2) by (simp add: m)
qed

theorem modify_pushes_result_witness:
  "wellFormed loadedRepository \<and>
   compartmentOf ''videos'' (StrKey ''1'') loadedRepository = Some 0 \<and>
   current (cellStore loadedRepository ! 0) = Some ''T1'' \<and>
   fst (modify ''videos'' (StrKey ''1'') (\<lambda>v. Inr (v @ ''!'')) loadedRepository)
     = Returns (Fulfilled ()) \<and>
   current (cellStore (snd (modify ''videos'' (StrKey ''1'') (\<lambda>v. Inr (v @ ''!''))
     loadedRepository)) ! 0) = Some ''T1!'' \<and>
   resolverCalls (snd (modify ''videos'' (StrKey ''1'') (\<lambda>v. Inr (v @ ''!''))
     loadedRepository)) = resolverCalls loadedRepository"
proof -
  have c: "compartmentOf ''videos'' (StrKey ''1'') loadedRepository = Some 0"
    by (simp add: compartmentOf_def cellsOf_def loadedRepository_fields)
  have v: "current (cellStore loadedRepository ! 0) = Some ''T1''"
    by (simp add: loadedRepository_fields)
  show ?thesis
    using modify_pushes_result [OF wellFormed_loadedRepository c v, of "\<lambda>v. Inr (v @ ''!'')" "''T1!''"] c v
      wellFormed_loadedRepository
    by simp
qed

text \<open>
  C2. Let \<open>v\<close> be the value that \<open>modify\<close> is given for the category and id (the value the
  compartment holds, or the first one it loads), and let the modifier reject on \<open>v\<close>. Then
  the promise of \<open>modify\<close> is rejected with the modifier's failure and no push has occurred.
  Every compartment that held a value before the call is exactly as it was, and if the
  compartment of the category and id held a value before the call, that value is \<open>v\<close> and the
  whole state is as it was before the call: the compartment still holds \<open>v\<close>.
\<close>

theorem modify_rejected_no_push:
  assumes "currentValueOf key ident s = Inr v" and "modifier v = Inl reason"
  shows "fst (modify key ident modifier s) = Returns (Rejected (ModifierFailure reason)) \<and>
         pushes (snd (modify key ident modifier s)) = pushes s \<and>
         (\<forall>c V. c < length (cellStore s) \<and> current (cellStore s ! c) = Some V \<longrightarrow>
            cellStore (snd (modify key ident modifier s)) ! c = cellStore s ! c) \<and>
         (\<forall>c V. compartmentOf key ident s = Some c \<and> current (cellStore s ! c) = Some V \<longrightarrow>
            V = v \<and> snd (modify key ident modifier s) = s)"
proof -
  from currentValueOf_Inr [OF assms(1)] obtain c where
    g: "fst (get key ident s) = Returns c"
    and r: "fst (firstValueFrom c (snd (get key ident s))) = Inr v"
    by blast
  have m: "modify key ident modifier s =
      (Returns (Rejected (ModifierFailure reason)), snd (firstValueFrom c (snd (get key ident s))))"
    using g r assms(2) by (simp add: modify_def split_beta)
  have 1: "pushes (snd (modify key ident modifier s)) = pushes s"
    by (simp add: m)
  have 2: "cellStore (snd (modify key ident modifier s)) ! c' = cellStore s ! c'"
    if "c' < length (cellStore s)" "current (cellStore s ! c') = Some V" for c' V
    using that by (simp add: m firstValueFrom_keeps get_keeps)
  have 3: "V = v \<and> snd (modify key ident modifier s) = s"
    if "compartmentOf key ident s = Some c'" "current (cellStore s ! c') = Some V" for c' V
    using that g r by (simp add: m get_existing firstValueFrom_present)
  show ?thesis using m 1 2 3 by simp
qed

theorem modify_rejected_no_push_witness:
  "currentValueOf ''videos'' (StrKey ''1'') loadedRepository = Inr ''T1'' \<and>
   fst (modify ''videos'' (StrKey ''1'') (\<lambda>v. if v = ''T1'' then Inl ''denied'' else Inr v)
     loadedRepository) = Returns (Rejected (ModifierFailure ''denied'')) \<and>
   pushes (snd (modify ''videos'' (StrKey ''1'') (\<lambda>v. if v = ''T1'' then Inl ''denied'' else Inr v)
     loadedRepository)) = [] \<and>
   snd (modify ''videos'' (StrKey ''1'') (\<lambda>v. if v = ''T1'' then Inl ''denied'' else Inr v)
     loadedRepository) = loadedRepository"
proof -
  have c: "compartmentOf ''videos'' (StrKey ''1'') loadedRepository = Some 0"
    by (simp add: compartmentOf_def cellsOf_def loadedRepository_fields)
  have v: "current (cellStore loadedRepository ! 0) = Some ''T1''"
    by (simp add: loadedRepository_fields)
  have r: "currentValueOf ''videos'' (StrKey ''1'') loadedRepository = Inr ''T1''"
    using c v by (rule currentValueOf_holding)
  show ?thesis
    using modify_rejected_no_push [OF r, where modifier = "\<lambda>v. if v = ''T1'' then Inl ''denied'' else Inr v"
        and reason = "''denied''"] r c v
    by (simp add: loadedRepository_fields)
qed

text \<open>
  C3, as amended. Take a category that was never registered and whose name is not one that
  a plain object inherits (\<open>__proto__\<close> and the functions of \<open>Object.prototype\<close>), in a
  repository whose private hash has \<open>Object.prototype\<close> as its prototype, as every repository
  built by \<open>createRepository\<close> has. Then \<open>get\<close>, \<open>clear\<close> and \<open>clearAll\<close> throw
  \<open>UnknownCategory\<close> at call time. \<open>modify\<close> is an \<open>async\<close> function: it does not throw, it
  returns a promise that is rejected with the same \<open>UnknownCategory\<close> error. None of the four
  changes the state.
\<close>

theorem unknown_category_raised:
  assumes "\<not> registered key s" and "\<not> inherited key" and "proto (compartmentLookups s) = None"
  shows "get key ident s = (Throws (UnknownCategory key), s) \<and>
         clear key ident s = (Throws (UnknownCategory key), s) \<and>
         clearAll key s = (Throws (UnknownCategory key), s) \<and>
         modify key ident modifier s = (Returns (Rejected (UnknownCategory key)), s)"
  using findLookup_unregistered [OF assms]
  by (simp add: get_def clear_def clearAll_def modify_def)

theorem unknown_category_raised_witness:
  "\<not> registered ''books'' videoRepository \<and> \<not> inherited ''books'' \<and>
   proto (compartmentLookups videoRepository) = None \<and>
   get ''books'' (NumKey 7) videoRepository = (Throws (UnknownCategory ''books''), videoRepository) \<and>
   clear ''books'' (NumKey 7) videoRepository = (Throws (UnknownCategory ''books''), videoRepository) \<and>
   clearAll ''books'' videoRepository = (Throws (UnknownCategory ''books''), videoRepository) \<and>
   modify ''books'' (NumKey 7) Inr videoRepository
     = (Returns (Rejected (UnknownCategory ''books'')), videoRepository)"
proof -
  have u: "\<not> registered ''books'' videoRepository"
    by (simp add: registered_def videoRepository_fields)
  have i: "\<not> inherited ''books''"
    by (simp add: inherited_def objectPrototypeNames_def)
  have p: "proto (compartmentLookups videoRepository) = None"
    by (simp add: videoRepository_fields)
  show ?thesis
    using unknown_category_raised [OF u i p, of "NumKey 7" Inr] u i p by simp
qed

text \<open>
  The claim as first stated, that \<open>modify\<close> also throws at call time, fails: for the
  unregistered category \<open>books\<close> the call returns a rejected promise.
\<close>

theorem modify_unknown_category_counterexample:
  "\<not> registered ''books'' videoRepository \<and>
   fst (modify ''books'' (StrKey ''1'') Inr videoRepository)
     = Returns (Rejected (UnknownCategory ''books'')) \<and>
   fst (modify ''books'' (StrKey ''1'') Inr videoRepository) \<noteq> Throws (UnknownCategory ''books'')"
proof -
  have u: "\<not> registered ''books'' videoRepository"
    by (simp add: registered_def videoRepository_fields)
  have i: "\<not> inherited ''books''"
    by (simp add: inherited_def objectPrototypeNames_def)
  have p: "proto (compartmentLookups videoRepository) = None"
    by (simp add: videoRepository_fields)
  have "findLookup ''books'' videoRepository = Throws (UnknownCategory ''books'')"
    using u i p by (rule findLookup_unregistered)
  then show ?thesis using u by (simp add: modify_def get_def)
qed

text \<open>
  C4. In a repository built by \<open>createRepository\<close>, take a registered category and an id
  that the category has no compartment for, and let any number of callers (at least one) call
  \<open>get\<close> for it, with loads completing at any point in between. Then exactly one compartment
  is created, the resolver of the category is invoked exactly once (on that id), and every
  caller gets the same, newly created compartment.
\<close>

theorem single_flight:
  assumes "wellFormed s" and "registered key s" and "compartmentOf key ident s = None"
    and "Caller \<in> set es"
  shows "fst (race key ident es s) = replicate (callers es) (Returns (length (cellStore s))) \<and>
         length (cellStore (snd (race key ident es s))) = Suc (length (cellStore s)) \<and>
         resolverCalls (snd (race key ident es s)) = resolverCalls s @ [(compartment (token s) key, ident)] \<and>
         compartmentOf key ident (snd (race key ident es s)) = Some (length (cellStore s))"
  using assms
proof (induction es arbitrary: s)
  case Nil
  then show ?case by simp
next
  case (Cons e es)
  show ?case
  proof (cases e)
    case Caller
    from compartmentOf_None [OF Cons.prems(2,3)] obtain l where
      l: "map_of (own (compartmentLookups s)) key = Some l" "map_of (cells (lookupStore s ! l)) ident = None"
      by blast
    from wellFormed_registered(2) [OF Cons.prems(1) l(1)] obtain val where
      val: "factory (lookupStore s ! l) = compartmentFactory (token s) key val" by blast
    note g = get_absent [OF Cons.prems(1) l val]
    from race_existing [OF g(4), of es] g(1,2,3) show ?thesis
      by (simp add: Caller callers_def split_beta)
  next
    case (LoadSettles c)
    then have "Caller \<in> set es" using Cons.prems(4) by simp
    from Cons.IH [OF wellFormed_settleLoad [OF Cons.prems(1)] _ _ this, of c] Cons.prems(2,3)
    show ?thesis
      by (simp add: LoadSettles callers_def)
  qed
qed

theorem single_flight_witness:
  "wellFormed videoRepository \<and> registered ''videos'' videoRepository \<and>
   compartmentOf ''videos'' (StrKey ''1'') videoRepository = None \<and>
   fst (race ''videos'' (StrKey ''1'') [Caller, Caller, LoadSettles 0, Caller] videoRepository)
     = [Returns 0, Returns 0, Returns 0] \<and>
   length (cellStore (snd (race ''videos'' (StrKey ''1'') [Caller, Caller, LoadSettles 0, Caller]
     videoRepository))) = 1 \<and>
   resolverCalls (snd (race ''videos'' (StrKey ''1'') [Caller, Caller, LoadSettles 0, Caller]
     videoRepository))
     = [(CompartmentToken (DataStoreToken ''app'') ''videos'', StrKey ''1'')]"
proof -
  have r: "registered ''videos'' videoRepository"
    by (simp add: registered_def videoRepository_fields)
  have a: "compartmentOf ''videos'' (StrKey ''1'') videoRepository = None"
    by (simp add: compartmentOf_def cellsOf_def videoRepository_fields)
  have n: "Caller \<in> set [Caller, Caller, LoadSettles 0, Caller]" by simp
  show ?thesis
    using single_flight [OF wellFormed_videoRepository r a n] wellFormed_videoRepository r a
    by (simp add: videoRepository_fields compartment_def callers_def)
qed

text \<open>
  C5. In a repository built by \<open>createRepository\<close>, after \<open>reset\<close> the key-to-Cell mapping
  of every registered category is empty. So for a category and id that had a compartment
  \<open>c\<close> before, the next \<open>get\<close> returns a new compartment, different from \<open>c\<close>, and invokes
  the resolver of the category once more on that id.
\<close>

theorem reset_clears_every_category:
  assumes "wellFormed s" and "compartmentOf key ident s = Some c"
  shows "(\<forall>key'. registered key' s \<longrightarrow> cellsOf key' (reset s) = Some []) \<and>
         fst (get key ident (reset s)) = Returns (length (cellStore s)) \<and>
         length (cellStore s) \<noteq> c \<and>
         resolverCalls (snd (get key ident (reset s)))
           = resolverCalls s @ [(compartment (token s) key, ident)]"
proof -
  have cleared: "cells (lookupStore (reset s) ! l') = []"
    if "map_of (own (compartmentLookups s)) key' = Some l'" for key' l'
  proof -
    have "(key', l') \<in> set (own (lookups s))"
      using map_of_SomeD [OF that] assms(1) by (auto simp: wellFormed_def)
    then have "l' \<in> snd ` set (own (lookups s))" by force
    then show ?thesis
      using wellFormed_registered(1) [OF assms(1) that]
      by (simp add: reset_clearEach clearEach_cleared)
  qed
  have 1: "\<forall>key'. registered key' s \<longrightarrow> cellsOf key' (reset s) = Some []"
    using cleared by (auto simp: registered_iff cellsOf_def)
  from compartmentOf_SomeD [OF assms(2)] obtain l where
    l: "map_of (own (compartmentLookups s)) key = Some l" by blast
  have wf: "wellFormed (reset s)" using assms(1) by (rule wellFormed_reset)
  have l': "map_of (own (compartmentLookups (reset s))) key = Some l"
    using l by simp
  have none: "map_of (cells (lookupStore (reset s) ! l)) ident = None"
    using cleared [OF l] by simp
  from wellFormed_registered(2) [OF wf l'] obtain val where
    val: "factory (lookupStore (reset s) ! l) = compartmentFactory (token (reset s)) key val"
    by blast
  note g = get_absent [OF wf l' none val]
  have len: "length (cellStore (reset s)) = length (cellStore s)"
    by (simp add: reset_clearEach)
  have res: "resolverCalls (reset s) = resolverCalls s"
    by (simp add: reset_clearEach)
  have c: "c < length (cellStore s)"
    using assms by (rule compartmentOf_in_store)
  show ?thesis
    using 1 g(1,3) c by (simp add: len res)
qed

theorem reset_clears_every_category_witness:
  "wellFormed loadedRepository \<and>
   compartmentOf ''videos'' (StrKey ''1'') loadedRepository = Some 0 \<and>
   cellsOf ''videos'' (reset loadedRepository) = Some [] \<and>
   fst (get ''videos'' (StrKey ''1'') (reset loadedRepository)) = Returns 1 \<and>
   resolverCalls (snd (get ''videos'' (StrKey ''1'') (reset loadedRepository)))
     = [(CompartmentToken (DataStoreToken ''app'') ''videos'', StrKey ''1''),
        (CompartmentToken (DataStoreToken ''app'') ''videos'', StrKey ''1'')]"
proof -
  have c: "compartmentOf ''videos'' (StrKey ''1'') loadedRepository = Some 0"
    by (simp add: compartmentOf_def cellsOf_def loadedRepository_fields)
  have r: "registered ''videos'' loadedRepository"
    by (simp add: registered_def loadedRepository_fields)
  show ?thesis
    using reset_clears_every_category [OF wellFormed_loadedRepository c] wellFormed_loadedRepository c r
    by (simp add: loadedRepository_fields compartment_def)
qed


text \<open>
  C7. No run of \<open>get\<close>, \<open>clear\<close>, \<open>clearAll\<close>, \<open>modify\<close> and \<open>reset\<close> calls changes the
  category-to-lookup mapping (nor the \<open>lookups\<close> parameter property): a category is
  registered after the run exactly when it was before, and \<open>findLookup\<close> gives the same
  answer, the same Lookup or the same \<open>UnknownCategory\<close> error.
\<close>

theorem categories_fixed:
  "compartmentLookups (run ops s) = compartmentLookups s \<and>
   lookups (run ops s) = lookups s \<and>
   registered key (run ops s) = registered key s \<and>
   findLookup key (run ops s) = findLookup key s"
  by (simp add: registered_def findLookup_def)

theorem categories_fixed_witness:
  "findLookup ''books'' (run [Get ''videos'' (StrKey ''1''), Modify ''books'' (NumKey 2) Inr,
       Clear ''videos'' (StrKey ''1''), ClearAll ''users'', Reset] videoRepository)
     = Throws (UnknownCategory ''books'') \<and>
   findLookup ''users'' (run [Get ''videos'' (StrKey ''1''), Modify ''books'' (NumKey 2) Inr,
       Clear ''videos'' (StrKey ''1''), ClearAll ''users'', Reset] videoRepository)
     = Returns (LookupObject 1)"
  using categories_fixed [of "[Get ''videos'' (StrKey ''1''), Modify ''books'' (NumKey 2) Inr,
       Clear ''videos'' (StrKey ''1''), ClearAll ''users'', Reset]" videoRepository]
  by (simp add: findLookup_def hashGet_def videoRepository_fields objectPrototypeNames_def)

text \<open>
  C8. \<open>get\<close> on an unregistered category does not always raise \<open>UnknownCategory\<close>. The
  category \<open>toString\<close> was never registered, yet \<open>findLookup\<close> finds the function that the
  private hash inherits from \<open>Object.prototype\<close>, its guard does not fire, and \<open>get\<close> raises
  a \<open>TypeError\<close> when it calls \<open>find\<close> on that function. The state is left as it was.
\<close>

theorem get_toString_type_error:
  "\<not> registered ''toString'' videoRepository \<and>
   findLookup ''toString'' videoRepository = Returns (Inherited ''toString'') \<and>
   get ''toString'' (StrKey ''1'') videoRepository
     = (Throws (TypeError ''lookup.find is not a function''), videoRepository) \<and>
   fst (get ''toString'' (StrKey ''1'') videoRepository) \<noteq> Throws (UnknownCategory ''toString'')"
proof -
  have u: "\<not> registered ''toString'' videoRepository"
    by (simp add: registered_def videoRepository_fields)
  have i: "inherited ''toString''"
    by (simp add: inherited_def objectPrototypeNames_def)
  have p: "proto (compartmentLookups videoRepository) = None"
    by (simp add: videoRepository_fields)
  show ?thesis
    using u findLookup_inherited [OF u i p] get_inherited [OF u i p, of "StrKey ''1''"]
    by simp
qed

text \<open>
  C9. In a repository built by \<open>createRepository\<close>, take a registered category (configured
  with \<open>val\<close>) and an id the category has no compartment for, and suppose the resolver
  resolves to \<open>V\<close> on that id and the modifier to \<open>V'\<close> on \<open>V\<close>. Then the \<open>get\<close> that
  \<open>modify\<close> starts with does not fail: it creates the compartment, with the strategy \<open>auto\<close>,
  no value yet and its load in flight, and that creation is what invokes the resolver, once.
  \<open>modify\<close> then waits for that load to complete, and only then applies the modifier and
  pushes: its promise is fulfilled and its final state is the state after \<open>get\<close>, with the
  load completed and then \<open>V'\<close> pushed. The compartment has emitted the loaded \<open>V\<close> and then
  \<open>V'\<close>, which it holds at the end; the wait has invoked no resolver.
\<close>

theorem modify_absent_compartment:
  assumes "wellFormed s" and "map_of (own (compartmentLookups s)) key = Some l"
    and "compartmentOf key ident s = None"
    and "factory (lookupStore s ! l) = compartmentFactory (token s) key val"
    and "resolver val ident = Inr V" and "modifier V = Inr V'"
  shows "fst (get key ident s) = Returns (length (cellStore s)) \<and>
         cellStore (snd (get key ident s)) ! length (cellStore s) =
           \<lparr>compartmentToken = compartment (token s) key,
            options = \<lparr>strategy = Auto, retentionOption = retention val, defaultValue = None,
                       source = ConfiguredDataSource (resolver val) ident\<rparr>,
            current = None, stream = [], loading = True\<rparr> \<and>
         resolverCalls (snd (get key ident s))
           = resolverCalls s @ [(compartment (token s) key, ident)] \<and>
         modify key ident modifier s =
           (Returns (Fulfilled ()),
            DataCompartment_next (length (cellStore s)) V'
              (settleLoad (length (cellStore s)) (snd (get key ident s)))) \<and>
         compartmentOf key ident (snd (modify key ident modifier s)) = Some (length (cellStore s)) \<and>
         current (cellStore (snd (modify key ident modifier s)) ! length (cellStore s)) = Some V' \<and>
         stream (cellStore (snd (modify key ident modifier s)) ! length (cellStore s)) = [V, V'] \<and>
         resolverCalls (snd (modify key ident modifier s)) = resolverCalls (snd (get key ident s)) \<and>
         pushes (snd (modify key ident modifier s)) = pushes s @ [(length (cellStore s), V')]"
proof -
  let ?n = "length (cellStore s)"
  let ?s1 = "snd (get key ident s)"
  have none: "map_of (cells (lookupStore s ! l)) ident = None"
    using assms(2,3) by (simp add: compartmentOf_def cellsOf_def)
  note g = get_absent [OF assms(1,2) none assms(4)]
  have cell: "cellStore ?s1 ! ?n =
      \<lparr>compartmentToken = compartment (token s) key,
       options = \<lparr>strategy = Auto, retentionOption = retention val, defaultValue = None,
                  source = ConfiguredDataSource (resolver val) ident\<rparr>,
       current = None, stream = [], loading = True\<rparr>"
    by (simp add: g(2))
  let ?s2 = "settleLoad ?n ?s1"
  have fv: "firstValueFrom ?n ?s1 = (Inr V, ?s2)"
    using cell assms(5) by (simp add: firstValueFrom_def startLoad_def Let_def)
  have cell2: "current (cellStore ?s2 ! ?n) = Some V" "stream (cellStore ?s2 ! ?n) = [V]"
    using cell assms(5) by (simp_all add: settleLoad_def Let_def g(2))
  have len2: "?n < length (cellStore ?s2)" by (simp add: g(2))
  have m: "modify key ident modifier s = (Returns (Fulfilled ()), DataCompartment_next ?n V' ?s2)"
    using g(1) fv assms(6) by (simp add: modify_def split_beta)
  have co: "compartmentOf key ident ?s2 = compartmentOf key ident ?s1"
    by (simp add: compartmentOf_def cellsOf_def split: option.splits)
  have a: "fst (get key ident s) = Returns ?n" by (rule g(1))
  have b: "resolverCalls ?s1 = resolverCalls s @ [(compartment (token s) key, ident)]" by (rule g(3))
  have c: "compartmentOf key ident (snd (modify key ident modifier s)) = Some ?n"
    using g(4) co by (simp add: m)
  have d: "current (cellStore (snd (modify key ident modifier s)) ! ?n) = Some V'"
    "stream (cellStore (snd (modify key ident modifier s)) ! ?n) = [V, V']"
    using next_cell [OF len2, of V'] cell2 by (simp_all add: m)
  have e: "resolverCalls (snd (modify key ident modifier s)) = resolverCalls ?s1"
    "pushes (snd (modify key ident modifier s)) = pushes s @ [(?n, V')]"
    by (simp_all add: m)
  show ?thesis
    using a cell b m c d e by blast
qed

theorem modify_absent_compartment_witness:
  "wellFormed videoRepository \<and>
   compartmentOf ''videos'' (StrKey ''7'') videoRepository = None \<and>
   fst (get ''videos'' (StrKey ''7'') videoRepository) = Returns 0 \<and>
   resolverCalls (snd (get ''videos'' (StrKey ''7'') videoRepository))
     = [(CompartmentToken (DataStoreToken ''app'') ''videos'', StrKey ''7'')] \<and>
   fst (modify ''videos'' (StrKey ''7'') (\<lambda>v. Inr (v @ ''!'')) videoRepository)
     = Returns (Fulfilled ()) \<and>
   stream (cellStore (snd (modify ''videos'' (StrKey ''7'') (\<lambda>v. Inr (v @ ''!''))
     videoRepository)) ! 0) = [''T7'', ''T7!''] \<and>
   resolverCalls (snd (modify ''videos'' (StrKey ''7'') (\<lambda>v. Inr (v @ ''!'')) videoRepository))
     = [(CompartmentToken (DataStoreToken ''app'') ''videos'', StrKey ''7'')]"
proof -
  let ?val = "\<lparr>retention = None, resolver = titleResolver\<rparr>
              :: (string, nat) repositoryCompartmentOptions"
  let ?m = "\<lambda>v. Inr (v @ ''!'') :: string + string"
  have l: "map_of (own (compartmentLookups videoRepository)) ''videos'' = Some 0"
    by (simp add: videoRepository_fields)
  have a: "compartmentOf ''videos'' (StrKey ''7'') videoRepository = None"
    by (simp add: compartmentOf_def cellsOf_def videoRepository_fields)
  have f: "factory (lookupStore videoRepository ! 0)
             = compartmentFactory (token videoRepository) ''videos'' ?val"
    by (simp add: videoRepository_def videoRegistry_def createRepository_def createLookups_def
        Lookup_def Repository_def emptyHeap_def hashSet_def emptyHash_def)
  have r: "resolver ?val (StrKey ''7'') = Inr ''T7''" by (simp add: titleResolver_def)
  have n: "length (cellStore videoRepository) = 0" "resolverCalls videoRepository = []"
    "compartment (token videoRepository) ''videos'' = CompartmentToken (DataStoreToken ''app'') ''videos''"
    by (simp_all add: videoRepository_fields compartment_def)
  note t = modify_absent_compartment [OF wellFormed_videoRepository l a f r,
        where modifier = ?m and V' = "''T7!''", unfolded n]
  have t0: "?m ''T7'' = Inr ''T7!''" by simp
  show ?thesis
    using t [OF t0] wellFormed_videoRepository a by auto
qed

text \<open>
  C10. In a repository built by \<open>createRepository\<close>, for two distinct registered categories
  \<open>a\<close> and \<open>b\<close>, neither \<open>clear(a, id)\<close> nor \<open>clearAll(a)\<close> changes the key-to-Cell
  mapping of \<open>b\<close>.
\<close>

theorem clear_other_category_unchanged:
  assumes "wellFormed s" and "registered a s" and "registered b s" and "a \<noteq> b"
  shows "cellsOf b (snd (clear a ident s)) = cellsOf b s \<and>
         cellsOf b (snd (clearAll a s)) = cellsOf b s"
proof -
  from assms(2,3) obtain la lb where
    la: "map_of (own (compartmentLookups s)) a = Some la" and lb: "map_of (own (compartmentLookups s)) b = Some lb"
    by (auto simp: registered_iff)
  have ne: "lb \<noteq> la"
    using distinct_lookups [OF assms(1) la lb assms(4)] by simp
  have 1: "snd (clear a ident s) = Lookup_clear la ident s"
    by (simp add: clear_def findLookup_own [OF la])
  have 2: "snd (clearAll a s) = Lookup_clearAll la s"
    by (simp add: clearAll_def findLookup_own [OF la])
  show ?thesis
    using lb ne by (simp add: cellsOf_def 1 2 Lookup_clear_other Lookup_clearAll_other)
qed

theorem clear_other_category_unchanged_witness:
  "wellFormed loadedRepository \<and> registered ''users'' loadedRepository \<and>
   registered ''videos'' loadedRepository \<and>
   cellsOf ''videos'' (snd (clear ''users'' (StrKey ''1'') loadedRepository)) = Some [(StrKey ''1'', 0)] \<and>
   cellsOf ''videos'' (snd (clearAll ''users'' loadedRepository)) = Some [(StrKey ''1'', 0)]"
proof -
  have r: "registered ''users'' loadedRepository" "registered ''videos'' loadedRepository"
    by (simp_all add: registered_def loadedRepository_fields)
  have c: "cellsOf ''videos'' loadedRepository = Some [(StrKey ''1'', 0)]"
    by (simp add: cellsOf_def loadedRepository_fields)
  show ?thesis
    using clear_other_category_unchanged [OF wellFormed_loadedRepository r, of "StrKey ''1''"]
      wellFormed_loadedRepository r c
    by simp
qed

end
